theory Spec2Isabelle
  imports Main
begin

section \<open>JavaScript values and string-keyed objects\<close>

text \<open>
  The cache files, the in-memory caches and the generator's answers are plain JavaScript
  objects of type \<open>Record<string, string>\<close>. An object is modelled by the list of its
  own enumerable properties in the order in which \<open>Object.entries\<close>, \<open>JSON.stringify\<close>
  and \<open>Object.assign\<close> see them: keys that are array indices first, in ascending
  numeric order, then every other key in the order of its creation.

  Reading \<open>obj[k]\<close> also looks at \<open>Object.prototype\<close>, so a key that is not an own
  property can still yield a (non-string, truthy) inherited member.
\<close>

type_synonym jsobj = "(string \<times> string) list"

datatype jsval = Undefined | Null | Str string | Inherited string

fun truthy :: "jsval \<Rightarrow> bool" where
  "truthy Undefined = False"
| "truthy Null = False"
| "truthy (Str s) = (s \<noteq> [])"
| "truthy (Inherited k) = True"

text \<open>\<open>a || b\<close>\<close>

definition js_or :: "jsval \<Rightarrow> jsval \<Rightarrow> jsval" where
  "js_or a b = (if truthy a then a else b)"

definition object_prototype_names :: "string list" where
  "object_prototype_names =
     [''constructor'', ''hasOwnProperty'', ''isPrototypeOf'', ''propertyIsEnumerable'',
      ''toLocaleString'', ''toString'', ''valueOf'', ''__proto__'',
      ''__defineGetter__'', ''__defineSetter__'', ''__lookupGetter__'', ''__lookupSetter__'']"

text \<open>\<open>obj[k]\<close> as a read.\<close>

definition js_get :: "jsobj \<Rightarrow> string \<Rightarrow> jsval" where
  "js_get obj k =
     (case map_of obj k of
        Some v \<Rightarrow> Str v
      | None \<Rightarrow> if k \<in> set object_prototype_names then Inherited k else Undefined)"

text \<open>
  Array indices are the canonical decimal numerals of the integers below \<open>2^32 - 1\<close>.
\<close>

definition is_digit :: "char \<Rightarrow> bool" where
  "is_digit c = (48 \<le> (of_char c :: int) \<and> (of_char c :: int) \<le> 57)"

definition digits_val :: "string \<Rightarrow> int" where
  "digits_val s = foldl (\<lambda>n c. 10 * n + ((of_char c :: int) - 48)) 0 s"

definition array_index :: "string \<Rightarrow> int option" where
  "array_index k =
     (if k \<noteq> [] \<and> list_all is_digit k \<and> (k = ''0'' \<or> hd k \<noteq> CHR ''0'')
         \<and> digits_val k < 4294967295
      then Some (digits_val k) else None)"

fun insert_index :: "int \<Rightarrow> string \<Rightarrow> string \<Rightarrow> jsobj \<Rightarrow> jsobj" where
  "insert_index n k v [] = [(k, v)]"
| "insert_index n k v ((k', v') # rest) =
     (case array_index k' of
        Some m \<Rightarrow> if m < n then (k', v') # insert_index n k v rest
                  else (k, v) # (k', v') # rest
      | None \<Rightarrow> (k, v) # (k', v') # rest)"

text \<open>A new own property takes its place in the enumeration order.\<close>

definition add_property :: "string \<Rightarrow> string \<Rightarrow> jsobj \<Rightarrow> jsobj" where
  "add_property k v obj =
     (case array_index k of
        Some n \<Rightarrow> insert_index n k v obj
      | None \<Rightarrow> obj @ [(k, v)])"

definition replace_value :: "string \<Rightarrow> string \<Rightarrow> jsobj \<Rightarrow> jsobj" where
  "replace_value k v obj = map (\<lambda>(k', v'). if k' = k then (k', v) else (k', v')) obj"

text \<open>
  Defining a data property (what \<open>Object.fromEntries\<close> and \<open>JSON.parse\<close> do): the
  prototype is not consulted.
\<close>

definition js_define :: "jsobj \<Rightarrow> string \<Rightarrow> string \<Rightarrow> jsobj" where
  "js_define obj k v =
     (if k \<in> fst ` set obj then replace_value k v obj else add_property k v obj)"

text \<open>
  The assignment \<open>obj[k] = v\<close> with a string \<open>v\<close>. An own property is overwritten in place.
  Otherwise the prototype is consulted: \<open>__proto__\<close> is an accessor of
  \<open>Object.prototype\<close> whose setter ignores a value that is neither an object nor
  \<open>null\<close>, so the assignment does nothing; every other key gets a new own property.
\<close>

definition js_set :: "jsobj \<Rightarrow> string \<Rightarrow> string \<Rightarrow> jsobj" where
  "js_set obj k v =
     (if k \<in> fst ` set obj then replace_value k v obj
      else if k = ''__proto__'' then obj
      else add_property k v obj)"

text \<open>\<open>Object.assign(target, source)\<close> assigns the source's own properties in order.\<close>

definition Object_assign :: "jsobj \<Rightarrow> jsobj \<Rightarrow> jsobj" where
  "Object_assign target source = fold (\<lambda>(k, v) obj. js_set obj k v) source target"

definition Object_entries :: "jsobj \<Rightarrow> (string \<times> string) list" where
  "Object_entries obj = obj"

definition Object_fromEntries :: "(string \<times> string) list \<Rightarrow> jsobj" where
  "Object_fromEntries entries = fold (\<lambda>(k, v) obj. js_define obj k v) entries []"

text \<open>
  \<open>xs.slice(start)\<close> for an integer \<open>start\<close>: a negative start counts from the end.
  The argument \<open>-maxExamples\<close> is \<open>-0\<close> when \<open>maxExamples\<close> is \<open>0\<close>, which
  \<open>slice\<close> reads as \<open>0\<close>.
\<close>

definition js_slice :: "'a list \<Rightarrow> int \<Rightarrow> 'a list" where
  "js_slice xs start =
     (let len = int (length xs);
          k = (if start < 0 then max (len + start) 0 else min start len)
      in drop (nat k) xs)"

section \<open>config.ts\<close>

datatype provider_name = OpenAI | Gemini | OpenRouter | Mock

record T8Config =
  provider :: provider_name
  apiKey :: string
  model :: string
  localesDir :: string
  maxExamples :: int
  batchSize :: int
  batchDelay :: int

section \<open>path.join\<close>

text \<open>
  \<open>path.join\<close> of Node.js on a POSIX system: the non-empty arguments are joined with
  \<open>/\<close> and the result is normalised. Empty segments and \<open>.\<close> are dropped; \<open>..\<close> removes
  the segment before it, and is kept where there is none to remove and the path is
  relative.
\<close>

fun segments_from :: "string \<Rightarrow> string \<Rightarrow> string list" where
  "segments_from segment [] = [segment]"
| "segments_from segment (c # cs) =
     (if c = CHR ''/'' then segment # segments_from [] cs
      else segments_from (segment @ [c]) cs)"

definition segments :: "string \<Rightarrow> string list" where
  "segments p = segments_from [] p"

fun normalizeString :: "bool \<Rightarrow> string list \<Rightarrow> string list \<Rightarrow> string list" where
  "normalizeString allowAboveRoot res [] = res"
| "normalizeString allowAboveRoot res (s # ss) =
     (if s = [] \<or> s = ''.'' then normalizeString allowAboveRoot res ss
      else if s = ''..'' then
        (if res \<noteq> [] \<and> last res \<noteq> ''..''
         then normalizeString allowAboveRoot (butlast res) ss
         else if allowAboveRoot then normalizeString allowAboveRoot (res @ [''..'']) ss
         else normalizeString allowAboveRoot res ss)
      else normalizeString allowAboveRoot (res @ [s]) ss)"

fun join_slash :: "string list \<Rightarrow> string" where
  "join_slash [] = []"
| "join_slash [s] = s"
| "join_slash (s # t # ss) = s @ ''/'' @ join_slash (t # ss)"

definition path_normalize :: "string \<Rightarrow> string" where
  "path_normalize p =
     (if p = [] then ''.''
      else (let isAbsolute = (hd p = CHR ''/'');
                trailingSeparator = (last p = CHR ''/'');
                path = join_slash (normalizeString (\<not> isAbsolute) [] (segments p))
            in if path = []
               then (if isAbsolute then ''/'' else if trailingSeparator then ''./'' else ''.'')
               else (let path' = (if trailingSeparator then path @ ''/'' else path)
                     in if isAbsolute then ''/'' @ path' else path')))"

definition path_join :: "string list \<Rightarrow> string" where
  "path_join args =
     (let joined = join_slash (filter (\<lambda>arg. arg \<noteq> []) args)
      in if joined = [] then ''.'' else path_normalize joined)"

section \<open>The process state\<close>

text \<open>
  Errors are values. \<open>LoadFailed\<close> is the error \<open>loadCache\<close> throws itself, \<open>IOFailed\<close>
  an error of \<open>fs.mkdir\<close>, \<open>fs.writeFile\<close> or \<open>fs.rename\<close>, \<open>GeneratorFailed\<close> whatever the
  provider throws, \<open>NoTranslation\<close> the error \<open>flush\<close> makes for a text without a
  translation.
\<close>

datatype error =
    LoadFailed string string
  | IOFailed string
  | GeneratorFailed string
  | NoTranslation string

text \<open>
  A file is modelled by what reading it gives: content that \<open>JSON.parse\<close> turns into an
  object of strings, content that \<open>JSON.parse\<close> rejects (with the parser's message), or a
  file that \<open>fs.readFile\<close> cannot read (with the error code, which is not \<open>ENOENT\<close>).
  A path with no file is \<open>ENOENT\<close>. Files that parse to something else than an object of
  strings are outside the model.
\<close>

datatype cache_file = Json jsobj | Garbage string | Unreadable string

text \<open>The step of \<open>saveCache\<close> that fails, when one does.\<close>

datatype fs_fault = MkdirFails | WriteFileFails | RenameFails

datatype outcome = Resolved jsval | Rejected error

text \<open>
  A promise returned by \<open>enqueue\<close> is a number; \<open>promises\<close> holds the settled ones. The
  \<open>resolve\<close> and \<open>reject\<close> functions of a queue item are closures over the
  \<open>resolve\<close>/\<open>reject\<close> of promises: such a closure is modelled by the promises it settles,
  in call order.
\<close>

record QueueItem =
  qtext :: string
  qresolve :: "nat list"
  qreject :: "nat list"

text \<open>
  A batch that \<open>flush\<close> has detached: the parameters of the call and the locals it
  computed before its first \<open>await\<close>.
\<close>

record job =
  jlang :: string
  jctx :: string
  jqueue :: "QueueItem list"
  juniqueTexts :: "string list"
  jconfig :: T8Config

text \<open>
  The functions of \<open>cache.ts\<close> and \<open>flush\<close> are asynchronous. A call runs until it awaits
  an operation of the file system, the generator, or a lock that is taken; there it is
  suspended, other calls run, and it is resumed when the awaited operation has completed.
  A suspended call is modelled by the place where it waits together with the locals it
  still needs. An \<open>await\<close> of a promise that is settled already (a cache that is in
  memory, a lock that is free) is not a place where the model suspends the call: its
  continuation runs in the same step.

  What \<open>setCached\<close> and \<open>setCachedBatch\<close> do to the cached object:
\<close>

datatype upsert = Assign string string | Assign_all jsobj

text \<open>
  Who awaits \<open>setCached\<close> or \<open>setCachedBatch\<close>: a caller outside the library, or \<open>flush\<close>
  with its batch and the generator's answer.
\<close>

datatype caller = Outside | Flush job jsobj

text \<open>
  The locals of a call of \<open>setCached\<close> or \<open>setCachedBatch\<close>: \<open>key\<close> and \<open>lockKey\<close> as
  computed when the call began, the arguments, and who awaits the call.
\<close>

record put =
  pkey :: string
  plock :: string
  plang :: string
  pctx :: string
  pupsert :: upsert
  pcaller :: caller

text \<open>
  The asynchronous calls, each with the place where it is suspended:
  \<^item> \<open>getCached\<close> in \<open>loadCache\<close> at \<open>fs.readFile\<close>, with \<open>key\<close>, \<open>filePath\<close> and the text;
  \<^item> \<open>getAllCached\<close> in \<open>loadCache\<close> at \<open>fs.readFile\<close>, called from outside or by \<open>flush\<close>
    for its batch;
  \<^item> \<open>flush\<close> at \<open>provider.translate\<close>, with the examples it has passed;
  \<^item> \<open>setCached\<close> or \<open>setCachedBatch\<close> in \<open>withLock\<close> waiting for the lock, in \<open>loadCache\<close>
    at \<open>fs.readFile\<close>, and in \<open>saveCache\<close> at \<open>fs.mkdir\<close> (with the cached object),
    \<open>fs.writeFile\<close> (with the text it writes) and \<open>fs.rename\<close>, each with \<open>filePath\<close>.
\<close>

datatype task =
    Finished
  | GetCached_readFile string string string
  | GetAllCached_readFile string string "job option"
  | Flush_translate job jsobj
  | Put_lock put
  | Put_readFile put string string
  | Put_mkdir put string nat
  | Put_writeFile put string jsobj
  | Put_rename put string

text \<open>What a call of \<open>cache.ts\<close> made from outside gives back.\<close>

datatype reply = Returned jsval | Copied jsobj | Completed | Thrown error

text \<open>
  The trace records what is observable: task \<open>k\<close> calls the generator with texts, language
  and examples; a file is renamed into place; a promise is settled.
\<close>

datatype event =
    Translate nat "string list" string jsobj
  | Saved string cache_file
  | Settled nat outcome

text \<open>
  The state of the process and of the disk. The cached objects live in \<open>heap\<close>, and
  \<open>memCache\<close> maps a key to the address of its object, because \<open>loadCache\<close> hands out the
  object itself and \<open>setCached\<close> changes it in place. \<open>tasks\<close> holds every asynchronous
  call made so far, by its number; \<open>replies\<close> what the calls from outside have returned.
\<close>

record world =
  config :: T8Config
  heap :: "nat \<Rightarrow> jsobj"
  next_object :: nat
  memCache :: "string \<rightharpoonup> nat"
  locks :: "string set"
  disk :: "string \<rightharpoonup> cache_file"
  queues :: "string \<rightharpoonup> QueueItem list"
  timers :: "string \<rightharpoonup> string \<times> string"
  tasks :: "task list"
  replies :: "nat \<rightharpoonup> reply"
  promises :: "nat \<rightharpoonup> outcome"
  next_promise :: nat
  trace :: "event list"

definition configure :: "(T8Config \<Rightarrow> T8Config) \<Rightarrow> world \<Rightarrow> world" where
  "configure partial w = w\<lparr>config := partial (config w)\<rparr>"

definition getConfig :: "world \<Rightarrow> T8Config" where
  "getConfig w = config w"

text \<open>
  A call is given the next number and runs up to its first suspension; \<open>f\<close> is its body,
  which returns the place where it is suspended, or \<open>Finished\<close>.
\<close>

definition spawn :: "(nat \<Rightarrow> world \<Rightarrow> task \<times> world) \<Rightarrow> world \<Rightarrow> nat \<times> world" where
  "spawn f w =
     (let k = length (tasks w) in
      case f k (w\<lparr>replies := (replies w)(k := None)\<rparr>) of
        (t, w1) \<Rightarrow> (k, w1\<lparr>tasks := tasks w1 @ [t]\<rparr>))"

definition return :: "nat \<Rightarrow> reply \<Rightarrow> world \<Rightarrow> world" where
  "return k r w = w\<lparr>replies := (replies w)(k \<mapsto> r)\<rparr>"

section \<open>The loops of flush\<close>

text \<open>
  Settling a promise that is already settled does nothing. A settlement that takes effect
  is recorded in the trace.
\<close>

definition settle :: "outcome \<Rightarrow> nat \<Rightarrow> world \<Rightarrow> world" where
  "settle out p w =
     (if promises w p = None
      then w\<lparr>promises := (promises w)(p \<mapsto> out), trace := trace w @ [Settled p out]\<rparr>
      else w)"

text \<open>Calling a \<open>resolve\<close> or \<open>reject\<close> closure of a queue item.\<close>

definition call :: "nat list \<Rightarrow> outcome \<Rightarrow> world \<Rightarrow> world" where
  "call callback out w = fold (settle out) callback w"

text \<open>The two loops over the queue that end \<open>flush\<close>.\<close>

fun resolve_all :: "jsobj \<Rightarrow> QueueItem list \<Rightarrow> world \<Rightarrow> world" where
  "resolve_all translations [] w = w"
| "resolve_all translations (item # rest) w =
     (let translation = js_get translations (qtext item) in
      resolve_all translations rest
        (if truthy translation then call (qresolve item) (Resolved translation) w
         else call (qreject item) (Rejected (NoTranslation (qtext item))) w))"

fun reject_all :: "error \<Rightarrow> QueueItem list \<Rightarrow> world \<Rightarrow> world" where
  "reject_all e [] w = w"
| "reject_all e (item # rest) w = reject_all e rest (call (qreject item) (Rejected e) w)"

section \<open>cache.ts\<close>

definition getCacheKey :: "string \<Rightarrow> string \<Rightarrow> world \<Rightarrow> string" where
  "getCacheKey lang ctx w =
     (let config = getConfig w in localesDir config @ '':'' @ lang @ '':'' @ ctx)"

definition getCachePath :: "string \<Rightarrow> string \<Rightarrow> world \<Rightarrow> string" where
  "getCachePath lang ctx w =
     (let config = getConfig w in path_join [localesDir config, lang, ctx @ ''.json''])"

text \<open>
  \<open>loadCache\<close> up to its \<open>await\<close>: the cached object when the key is in memory, else the
  key and the path of the file that \<open>fs.readFile\<close> has been asked to read.
\<close>

datatype load = Loaded nat | Reading string string

definition loadCache :: "string \<Rightarrow> string \<Rightarrow> world \<Rightarrow> load" where
  "loadCache lang ctx w =
     (let key = getCacheKey lang ctx w in
      case memCache w key of
        Some cache \<Rightarrow> Loaded cache
      | None \<Rightarrow> Reading key (getCachePath lang ctx w))"

text \<open>
  \<open>loadCache\<close> after \<open>fs.readFile\<close> has completed with \<open>content\<close>: the parsed object, or a
  new empty object when there is no file, is put in memory under \<open>key\<close>, whatever is
  there by now.
\<close>

definition loadCache_readFile ::
  "string \<Rightarrow> string \<Rightarrow> cache_file option \<Rightarrow> world \<Rightarrow> (error + nat) \<times> world" where
  "loadCache_readFile key filePath content w =
     (let data = next_object w in
      case content of
        Some (Json object) \<Rightarrow>
          (Inr data, w\<lparr>heap := (heap w)(data := object), next_object := Suc data,
                       memCache := (memCache w)(key \<mapsto> data)\<rparr>)
      | Some (Garbage message) \<Rightarrow> (Inl (LoadFailed filePath message), w)
      | Some (Unreadable message) \<Rightarrow> (Inl (LoadFailed filePath message), w)
      | None \<Rightarrow>
          (Inr data, w\<lparr>heap := (heap w)(data := []), next_object := Suc data,
                       memCache := (memCache w)(key \<mapsto> data)\<rparr>))"

text \<open>\<open>getCached\<close> after \<open>loadCache\<close>: \<open>return cache[text] || null\<close>.\<close>

definition getCached_loadCache :: "nat \<Rightarrow> string \<Rightarrow> error + nat \<Rightarrow> world \<Rightarrow> task \<times> world" where
  "getCached_loadCache k txt r w =
     (case r of
        Inl e \<Rightarrow> (Finished, return k (Thrown e) w)
      | Inr cache \<Rightarrow> (Finished, return k (Returned (js_or (js_get (heap w cache) txt) Null)) w))"

definition getCached_call :: "string \<Rightarrow> string \<Rightarrow> string \<Rightarrow> nat \<Rightarrow> world \<Rightarrow> task \<times> world" where
  "getCached_call txt lang ctx k w =
     (case loadCache lang ctx w of
        Loaded cache \<Rightarrow> getCached_loadCache k txt (Inr cache) w
      | Reading key filePath \<Rightarrow> (GetCached_readFile key filePath txt, w))"

definition getCached :: "string \<Rightarrow> string \<Rightarrow> string \<Rightarrow> world \<Rightarrow> nat \<times> world" where
  "getCached txt lang ctx w = spawn (getCached_call txt lang ctx) w"

section \<open>batch.ts: the example selector\<close>

definition selectExamples :: "jsobj \<Rightarrow> int \<Rightarrow> jsobj" where
  "selectExamples cache maxEx =
     (let entries = Object_entries cache in
      if int (length entries) \<le> maxEx then cache
      else (let selected = js_slice entries (- maxEx)
            in Object_fromEntries selected))"

section \<open>batch.ts: flush after its awaits\<close>

text \<open>
  The generator: \<open>createProvider(config).translate(texts, lang, examples)\<close>, a parameter
  of the model. \<open>Inl\<close> is what it throws.
\<close>

type_synonym generator = "T8Config \<Rightarrow> string list \<Rightarrow> string \<Rightarrow> jsobj \<Rightarrow> error + jsobj"

text \<open>
  \<open>flush\<close> after \<open>await getAllCached\<close>: on an error the \<open>catch\<close> block rejects; else the
  examples are selected and \<open>provider.translate\<close> is called, which is recorded in the trace
  with the number of the task.
\<close>

definition flush_getAllCached :: "nat \<Rightarrow> job \<Rightarrow> error + jsobj \<Rightarrow> world \<Rightarrow> task \<times> world" where
  "flush_getAllCached k j r w =
     (case r of
        Inl e \<Rightarrow> (Finished, reject_all e (jqueue j) w)
      | Inr allCached \<Rightarrow>
          (let examples = selectExamples allCached (maxExamples (jconfig j))
           in (Flush_translate j examples,
               w\<lparr>trace := trace w @ [Translate k (juniqueTexts j) (jlang j) examples]\<rparr>)))"

text \<open>
  \<open>flush\<close> after \<open>await setCachedBatch\<close>: the loop that resolves, or the \<open>catch\<close> block.
\<close>

definition flush_setCachedBatch :: "job \<Rightarrow> jsobj \<Rightarrow> error option \<Rightarrow> world \<Rightarrow> world" where
  "flush_setCachedBatch j translations failure w =
     (case failure of
        None \<Rightarrow> resolve_all translations (jqueue j) w
      | Some e \<Rightarrow> reject_all e (jqueue j) w)"

section \<open>cache.ts: the calls\<close>

text \<open>\<open>getAllCached\<close> after \<open>loadCache\<close>: \<open>{ ...cache }\<close> copies the object as it is now.\<close>

definition getAllCached_loadCache ::
  "nat \<Rightarrow> job option \<Rightarrow> error + nat \<Rightarrow> world \<Rightarrow> task \<times> world" where
  "getAllCached_loadCache k who r w =
     (let copy = (case r of Inl e \<Rightarrow> Inl e | Inr cache \<Rightarrow> Inr (heap w cache)) in
      case who of
        None \<Rightarrow> (Finished, return k (case copy of Inl e \<Rightarrow> Thrown e | Inr c \<Rightarrow> Copied c) w)
      | Some j \<Rightarrow> flush_getAllCached k j copy w)"

definition getAllCached_call ::
  "string \<Rightarrow> string \<Rightarrow> job option \<Rightarrow> nat \<Rightarrow> world \<Rightarrow> task \<times> world" where
  "getAllCached_call lang ctx who k w =
     (case loadCache lang ctx w of
        Loaded cache \<Rightarrow> getAllCached_loadCache k who (Inr cache) w
      | Reading key filePath \<Rightarrow> (GetAllCached_readFile key filePath who, w))"

definition getAllCached :: "string \<Rightarrow> string \<Rightarrow> world \<Rightarrow> nat \<times> world" where
  "getAllCached lang ctx w = spawn (getAllCached_call lang ctx None) w"

text \<open>\<open>cache[text] = translation\<close>, and \<open>Object.assign(cache, entries)\<close>.\<close>

fun apply_upsert :: "upsert \<Rightarrow> jsobj \<Rightarrow> jsobj" where
  "apply_upsert (Assign txt translation) cache = js_set cache txt translation"
| "apply_upsert (Assign_all entries) cache = Object_assign cache entries"

text \<open>
  The end of \<open>withLock\<close> and of the call: the \<open>finally\<close> block gives the lock back, then
  the caller goes on: one outside gets the result, \<open>flush\<close> runs its last part.
\<close>

definition withLock_finally :: "nat \<Rightarrow> put \<Rightarrow> error option \<Rightarrow> world \<Rightarrow> task \<times> world" where
  "withLock_finally k p failure w =
     (let w1 = w\<lparr>locks := locks w - {plock p}\<rparr> in
      case pcaller p of
        Outside \<Rightarrow>
          (Finished, return k (case failure of None \<Rightarrow> Completed | Some e \<Rightarrow> Thrown e) w1)
      | Flush j translations \<Rightarrow> (Finished, flush_setCachedBatch j translations failure w1))"

text \<open>
  \<open>saveCache\<close>, in four parts: up to \<open>await fs.mkdir\<close>, where the path is computed; after
  \<open>mkdir\<close>, where the object is turned into text as it is at that moment and
  \<open>fs.writeFile\<close> is called; after \<open>writeFile\<close>, which has written the temporary file; after
  \<open>rename\<close>, which has moved whatever the temporary file holds by then (and fails when
  there is none). The fault says which of the three operations fails, if any. A completed
  rename is recorded in the trace.
\<close>

definition saveCache :: "put \<Rightarrow> nat \<Rightarrow> world \<Rightarrow> task \<times> world" where
  "saveCache p data w =
     (let filePath = getCachePath (plang p) (pctx p) w in (Put_mkdir p filePath data, w))"

definition saveCache_mkdir ::
  "fs_fault option \<Rightarrow> nat \<Rightarrow> put \<Rightarrow> string \<Rightarrow> nat \<Rightarrow> world \<Rightarrow> task \<times> world" where
  "saveCache_mkdir fault k p filePath data w =
     (if fault = Some MkdirFails then withLock_finally k p (Some (IOFailed ''mkdir'')) w
      else (Put_writeFile p filePath (heap w data), w))"

definition saveCache_writeFile ::
  "fs_fault option \<Rightarrow> nat \<Rightarrow> put \<Rightarrow> string \<Rightarrow> jsobj \<Rightarrow> world \<Rightarrow> task \<times> world" where
  "saveCache_writeFile fault k p filePath content w =
     (let tempPath = filePath @ ''.tmp'' in
      if fault = Some WriteFileFails then withLock_finally k p (Some (IOFailed ''writeFile'')) w
      else (Put_rename p filePath, w\<lparr>disk := (disk w)(tempPath \<mapsto> Json content)\<rparr>))"

definition saveCache_rename ::
  "fs_fault option \<Rightarrow> nat \<Rightarrow> put \<Rightarrow> string \<Rightarrow> world \<Rightarrow> task \<times> world" where
  "saveCache_rename fault k p filePath w =
     (let tempPath = filePath @ ''.tmp'' in
      if fault = Some RenameFails then withLock_finally k p (Some (IOFailed ''rename'')) w
      else (case disk w tempPath of
              None \<Rightarrow> withLock_finally k p (Some (IOFailed ''rename'')) w
            | Some file \<Rightarrow>
                withLock_finally k p None
                  (w\<lparr>disk := ((disk w)(tempPath := None))(filePath \<mapsto> file),
                     trace := trace w @ [Saved filePath file]\<rparr>)))"

text \<open>
  The function passed to \<open>withLock\<close>, after \<open>loadCache\<close>: the cached object is changed in
  place, put in memory under the key computed when the call began, and \<open>saveCache\<close> is
  called.
\<close>

definition put_loadCache :: "nat \<Rightarrow> put \<Rightarrow> error + nat \<Rightarrow> world \<Rightarrow> task \<times> world" where
  "put_loadCache k p r w =
     (case r of
        Inl e \<Rightarrow> withLock_finally k p (Some e) w
      | Inr cache \<Rightarrow>
          (let w1 = w\<lparr>heap := (heap w)(cache := apply_upsert (pupsert p) (heap w cache))\<rparr>;
               w2 = w1\<lparr>memCache := (memCache w1)(pkey p \<mapsto> cache)\<rparr>
           in saveCache p cache w2))"

definition put_critical :: "nat \<Rightarrow> put \<Rightarrow> world \<Rightarrow> task \<times> world" where
  "put_critical k p w =
     (case loadCache (plang p) (pctx p) w of
        Loaded cache \<Rightarrow> put_loadCache k p (Inr cache) w
      | Reading key filePath \<Rightarrow> (Put_readFile p key filePath, w))"

text \<open>
  \<open>withLock\<close>: while the lock of the path is taken the call waits; else it takes the lock
  and runs the function.
\<close>

definition withLock :: "nat \<Rightarrow> put \<Rightarrow> world \<Rightarrow> task \<times> world" where
  "withLock k p w =
     (if plock p \<in> locks w then (Put_lock p, w)
      else put_critical k p (w\<lparr>locks := insert (plock p) (locks w)\<rparr>))"

text \<open>The common body of \<open>setCached\<close> and \<open>setCachedBatch\<close>.\<close>

definition put_call ::
  "upsert \<Rightarrow> string \<Rightarrow> string \<Rightarrow> caller \<Rightarrow> nat \<Rightarrow> world \<Rightarrow> task \<times> world" where
  "put_call u lang ctx who k w =
     (let key = getCacheKey lang ctx w;
          lockKey = getCachePath lang ctx w
      in withLock k \<lparr>pkey = key, plock = lockKey, plang = lang, pctx = ctx,
                     pupsert = u, pcaller = who\<rparr> w)"

definition setCached :: "string \<Rightarrow> string \<Rightarrow> string \<Rightarrow> string \<Rightarrow> world \<Rightarrow> nat \<times> world" where
  "setCached txt translation lang ctx w =
     spawn (put_call (Assign txt translation) lang ctx Outside) w"

definition setCachedBatch :: "jsobj \<Rightarrow> string \<Rightarrow> string \<Rightarrow> world \<Rightarrow> nat \<times> world" where
  "setCachedBatch entries lang ctx w = spawn (put_call (Assign_all entries) lang ctx Outside) w"

section \<open>batch.ts: the coalescing queue\<close>

definition getQueueKey :: "string \<Rightarrow> string \<Rightarrow> string" where
  "getQueueKey lang ctx = lang @ '':'' @ ctx"

text \<open>\<open>Array.from(new Set(xs))\<close>: the distinct elements in the order of first occurrence.\<close>

definition unique :: "'a list \<Rightarrow> 'a list" where
  "unique xs = fold (\<lambda>x acc. if x \<in> set acc then acc else acc @ [x]) xs []"

text \<open>
  \<open>flush\<close> after \<open>await provider.translate\<close>: an error goes to the \<open>catch\<close> block, an
  answer to \<open>setCachedBatch\<close>.
\<close>

definition flush_translate :: "nat \<Rightarrow> job \<Rightarrow> error + jsobj \<Rightarrow> world \<Rightarrow> task \<times> world" where
  "flush_translate k j r w =
     (case r of
        Inl e \<Rightarrow> (Finished, reject_all e (jqueue j) w)
      | Inr translations \<Rightarrow>
          put_call (Assign_all translations) (jlang j) (jctx j) (Flush j translations) k w)"

text \<open>
  \<open>flush\<close> up to its first suspension: the queue is detached, the texts and the
  configuration are read, and \<open>getAllCached\<close> is called.
\<close>

definition flush :: "string \<Rightarrow> string \<Rightarrow> world \<Rightarrow> world" where
  "flush lang ctx w =
     (let key = getQueueKey lang ctx in
      case queues w key of
        None \<Rightarrow> w
      | Some queue \<Rightarrow>
          if length queue = 0 then w
          else (let w1 = w\<lparr>queues := (queues w)(key := None)\<rparr>;
                    uniqueTexts = unique (map qtext queue);
                    config = getConfig w1;
                    j = \<lparr>jlang = lang, jctx = ctx, jqueue = queue,
                         juniqueTexts = uniqueTexts, jconfig = config\<rparr>
                in snd (spawn (getAllCached_call lang ctx (Some j)) w1)))"

text \<open>
  A suspended call is resumed, its awaited operation having completed: \<open>fs.readFile\<close> with
  what the disk holds at that moment, the generator with its answer, an operation of
  \<open>saveCache\<close> with success unless the fault names it, the wait for a lock with another
  look at the lock.
\<close>

fun continue :: "nat \<Rightarrow> generator \<Rightarrow> fs_fault option \<Rightarrow> task \<Rightarrow> world \<Rightarrow> task \<times> world" where
  "continue k gen fault Finished w = (Finished, w)"
| "continue k gen fault (GetCached_readFile key filePath txt) w =
     (case loadCache_readFile key filePath (disk w filePath) w of
        (r, w1) \<Rightarrow> getCached_loadCache k txt r w1)"
| "continue k gen fault (GetAllCached_readFile key filePath who) w =
     (case loadCache_readFile key filePath (disk w filePath) w of
        (r, w1) \<Rightarrow> getAllCached_loadCache k who r w1)"
| "continue k gen fault (Flush_translate j examples) w =
     flush_translate k j (gen (jconfig j) (juniqueTexts j) (jlang j) examples) w"
| "continue k gen fault (Put_lock p) w = withLock k p w"
| "continue k gen fault (Put_readFile p key filePath) w =
     (case loadCache_readFile key filePath (disk w filePath) w of
        (r, w1) \<Rightarrow> put_loadCache k p r w1)"
| "continue k gen fault (Put_mkdir p filePath data) w = saveCache_mkdir fault k p filePath data w"
| "continue k gen fault (Put_writeFile p filePath content) w =
     saveCache_writeFile fault k p filePath content w"
| "continue k gen fault (Put_rename p filePath) w = saveCache_rename fault k p filePath w"

definition resume :: "nat \<Rightarrow> generator \<Rightarrow> fs_fault option \<Rightarrow> world \<Rightarrow> world" where
  "resume k gen fault w =
     (if k < length (tasks w)
      then (case continue k gen fault (tasks w ! k) w of
              (t, w1) \<Rightarrow> w1\<lparr>tasks := (tasks w1)[k := t]\<rparr>)
      else w)"

text \<open>\<open>existing.resolve = (result) => { originalResolve(result); resolve(result); }\<close>\<close>

fun piggyback :: "string \<Rightarrow> nat \<Rightarrow> QueueItem list \<Rightarrow> QueueItem list" where
  "piggyback txt p [] = []"
| "piggyback txt p (item # rest) =
     (if qtext item = txt then item\<lparr>qresolve := qresolve item @ [p]\<rparr> # rest
      else item # piggyback txt p rest)"

text \<open>
  \<open>enqueue\<close> returns the new promise, which starts pending; the executor passed to
  \<open>new Promise\<close> runs at once. A timer is modelled by the arguments its callback will
  pass to \<open>flush\<close>.
\<close>

definition enqueue :: "string \<Rightarrow> string \<Rightarrow> string \<Rightarrow> world \<Rightarrow> nat \<times> world" where
  "enqueue txt lang ctx w0 =
     (let key = getQueueKey lang ctx;
          p = next_promise w0;
          w = w0\<lparr>next_promise := Suc p, promises := (promises w0)(p := None)\<rparr>;
          queue = (case queues w key of None \<Rightarrow> [] | Some q \<Rightarrow> q)
      in case find (\<lambda>item. qtext item = txt) queue of
           Some existing \<Rightarrow> (p, w\<lparr>queues := (queues w)(key \<mapsto> piggyback txt p queue)\<rparr>)
         | None \<Rightarrow>
             (let queue' = queue @ [\<lparr>qtext = txt, qresolve = [p], qreject = [p]\<rparr>];
                  w1 = w\<lparr>queues := (queues w)(key \<mapsto> queue')\<rparr>;
                  config = getConfig w1
              in if int (length queue') \<ge> batchSize config
                 then (p, flush lang ctx (w1\<lparr>timers := (timers w1)(key := None)\<rparr>))
                 else if timers w1 key = None
                 then (p, w1\<lparr>timers := (timers w1)(key \<mapsto> (lang, ctx))\<rparr>)
                 else (p, w1)))"

text \<open>The timer of a key fires: its callback deletes the timer and calls \<open>flush\<close>.\<close>

definition timer_fires :: "string \<Rightarrow> world \<Rightarrow> world" where
  "timer_fires key w =
     (case timers w key of
        None \<Rightarrow> w
      | Some (lang, ctx) \<Rightarrow> flush lang ctx (w\<lparr>timers := (timers w)(key := None)\<rparr>))"

text \<open>The state of a fresh process: nothing loaded, locked, queued, armed or pending.\<close>

definition start :: "T8Config \<Rightarrow> (string \<rightharpoonup> cache_file) \<Rightarrow> world" where
  "start cfg files =
     \<lparr>config = cfg, heap = (\<lambda>a. []), next_object = 0, memCache = Map.empty, locks = {},
      disk = files, queues = Map.empty, timers = Map.empty, tasks = [], replies = Map.empty,
      promises = Map.empty, next_promise = 0, trace = []\<rparr>"

definition defaults :: T8Config where
  "defaults =
     \<lparr>provider = OpenAI, apiKey = '''', model = ''gpt-4o-mini'', localesDir = ''./locales'',
      maxExamples = 50, batchSize = 25, batchDelay = 20\<rparr>"

section \<open>Scenarios and observations\<close>

text \<open>
  A call that runs alone: task \<open>k\<close> is resumed until it has finished, with nothing else in
  between. No call is suspended more than six times (\<open>flush\<close>: at \<open>fs.readFile\<close>, at the
  generator, and in \<open>setCachedBatch\<close> at \<open>fs.readFile\<close>, \<open>fs.mkdir\<close>, \<open>fs.writeFile\<close> and
  \<open>fs.rename\<close>), and resuming a finished task does nothing. A call that waits for a
  lock which another call holds does not finish alone.
\<close>

definition finish :: "nat \<Rightarrow> generator \<Rightarrow> fs_fault option \<Rightarrow> world \<Rightarrow> world" where
  "finish k gen fault w =
     resume k gen fault (resume k gen fault (resume k gen fault
       (resume k gen fault (resume k gen fault (resume k gen fault w)))))"

definition alone :: "generator \<Rightarrow> fs_fault option \<Rightarrow> nat \<times> world \<Rightarrow> nat \<times> world" where
  "alone gen fault c = (fst c, finish (fst c) gen fault (snd c))"

text \<open>
  Repeated calls of \<open>setCached\<close> with the same arguments, each running alone, stopping at
  the first one that does not complete; the result is the reply of the last call made.
\<close>

fun puts ::
  "generator \<Rightarrow> fs_fault option list \<Rightarrow> string \<Rightarrow> string \<Rightarrow> string \<Rightarrow> string \<Rightarrow> world
     \<Rightarrow> reply option \<times> world"
  where
  "puts gen [] txt v lang ctx w = (Some Completed, w)"
| "puts gen (f # fs) txt v lang ctx w =
     (case alone gen f (setCached txt v lang ctx w) of
        (k, w') \<Rightarrow>
          if replies w' k = Some Completed then puts gen fs txt v lang ctx w'
          else (replies w' k, w'))"

text \<open>
  What a load of the partition that started now would give if nothing else ran before it
  ended: the object in memory, or what the file holds.
\<close>

definition stored :: "string \<Rightarrow> string \<Rightarrow> world \<Rightarrow> jsobj option" where
  "stored lang ctx w =
     (case loadCache lang ctx w of
        Loaded cache \<Rightarrow> Some (heap w cache)
      | Reading key filePath \<Rightarrow>
          (case disk w filePath of
             None \<Rightarrow> Some []
           | Some (Json object) \<Rightarrow> Some object
           | Some (Garbage message) \<Rightarrow> None
           | Some (Unreadable message) \<Rightarrow> None))"

text \<open>\<open>n\<close> callers request the same text of the same partition, one after the other.\<close>

fun enqueue_many :: "nat \<Rightarrow> string \<Rightarrow> string \<Rightarrow> string \<Rightarrow> world \<Rightarrow> nat list \<times> world" where
  "enqueue_many 0 txt lang ctx w = ([], w)"
| "enqueue_many (Suc n) txt lang ctx w =
     (case enqueue txt lang ctx w of
        (p, w1) \<Rightarrow> (case enqueue_many n txt lang ctx w1 of (ps, w2) \<Rightarrow> (p # ps, w2)))"

text \<open>The collecting queue of a key; no queue and an empty queue are the same to \<open>enqueue\<close>.\<close>

definition collecting :: "world \<Rightarrow> string \<Rightarrow> QueueItem list" where
  "collecting w key = (case queues w key of None \<Rightarrow> [] | Some q \<Rightarrow> q)"

text \<open>The batches in flight: those of the suspended calls of \<open>flush\<close>.\<close>

fun caller_job :: "caller \<Rightarrow> job option" where
  "caller_job Outside = None"
| "caller_job (Flush j translations) = Some j"

fun task_job :: "task \<Rightarrow> job option" where
  "task_job Finished = None"
| "task_job (GetCached_readFile key filePath txt) = None"
| "task_job (GetAllCached_readFile key filePath who) = who"
| "task_job (Flush_translate j examples) = Some j"
| "task_job (Put_lock p) = caller_job (pcaller p)"
| "task_job (Put_readFile p key filePath) = caller_job (pcaller p)"
| "task_job (Put_mkdir p filePath data) = caller_job (pcaller p)"
| "task_job (Put_writeFile p filePath content) = caller_job (pcaller p)"
| "task_job (Put_rename p filePath) = caller_job (pcaller p)"

definition flushing :: "world \<Rightarrow> job list" where
  "flushing w = List.map_filter task_job (tasks w)"

text \<open>Who awaits the call of \<open>setCached\<close> or \<open>setCachedBatch\<close> that a task is.\<close>

fun task_caller :: "task \<Rightarrow> caller option" where
  "task_caller (Put_lock p) = Some (pcaller p)"
| "task_caller (Put_readFile p key filePath) = Some (pcaller p)"
| "task_caller (Put_mkdir p filePath data) = Some (pcaller p)"
| "task_caller (Put_writeFile p filePath content) = Some (pcaller p)"
| "task_caller (Put_rename p filePath) = Some (pcaller p)"
| "task_caller t = None"

text \<open>The events a step has added to the trace.\<close>

definition new_events :: "world \<Rightarrow> world \<Rightarrow> event list" where
  "new_events w w' = drop (length (trace w)) (trace w')"

text \<open>The calls of the generator that task \<open>k\<close> has made.\<close>

fun generator_calls :: "nat \<Rightarrow> event list \<Rightarrow> event list" where
  "generator_calls k [] = []"
| "generator_calls k (Translate k' texts lang examples # es) =
     (if k' = k then Translate k' texts lang examples # generator_calls k es
      else generator_calls k es)"
| "generator_calls k (e # es) = generator_calls k es"

text \<open>No promise is resolved before the first completed save.\<close>

fun resolved_only_after_save :: "event list \<Rightarrow> bool" where
  "resolved_only_after_save [] = True"
| "resolved_only_after_save (Saved path file # es) = True"
| "resolved_only_after_save (Settled p (Resolved v) # es) = False"
| "resolved_only_after_save (e # es) = resolved_only_after_save es"

text \<open>The promises the closures of a queue item can settle.\<close>

definition waiters :: "QueueItem \<Rightarrow> nat set" where
  "waiters item = set (qresolve item) \<union> set (qreject item)"

text \<open>Sample generators: one that answers every text, one that throws.\<close>

definition mock :: generator where
  "mock cfg texts lang examples = Inr (map (\<lambda>t. (t, ''['' @ lang @ ''] '' @ t)) texts)"

definition failing :: generator where
  "failing cfg texts lang examples = Inl (GeneratorFailed ''fetch failed'')"

definition fresh :: world where
  "fresh = start defaults Map.empty"

definition corrupted :: world where
  "corrupted =
     start defaults [''locales/fr/default.json'' \<mapsto> Garbage ''Unexpected end of JSON input'']"

text \<open>The message of the error a failing step of \<open>saveCache\<close> throws.\<close>

definition fault_message :: "fs_fault \<Rightarrow> string" where
  "fault_message f =
     (case f of MkdirFails \<Rightarrow> ''mkdir'' | WriteFileFails \<Rightarrow> ''writeFile''
      | RenameFails \<Rightarrow> ''rename'')"

text \<open>More sample generators: one that answers every text with the empty string, one that
  answers with an empty object, one that leaves out the text \<open>Two\<close>, one that answers with
  an object parsed from \<open>{"__proto__": "proto-fr"}\<close>.\<close>

definition blank :: generator where
  "blank cfg texts lang examples = Inr (map (\<lambda>t. (t, [])) texts)"

definition silent :: generator where
  "silent cfg texts lang examples = Inr []"

definition partial_answer :: generator where
  "partial_answer cfg texts lang examples =
     Inr (map (\<lambda>t. (t, ''['' @ lang @ ''] '' @ t)) (filter (\<lambda>t. t \<noteq> ''Two'') texts))"

definition proto_answer :: generator where
  "proto_answer cfg texts lang examples = Inr [(''__proto__'', ''proto-fr'')]"

text \<open>
  Sample runs, each from a fresh process up to the moment the timer has fired and the
  batch is detached: one caller; two callers of the same text; three callers of three
  texts.
\<close>

definition one_caller :: "string \<Rightarrow> world" where
  "one_caller txt = timer_fires ''fr:default'' (snd (enqueue txt ''fr'' ''default'' fresh))"

definition two_callers :: world where
  "two_callers =
     timer_fires ''fr:default'' (snd (enqueue_many 2 ''Hello'' ''fr'' ''default'' fresh))"

definition three_texts :: world where
  "three_texts =
     timer_fires ''fr:default''
       (snd (enqueue ''Three'' ''fr'' ''default''
         (snd (enqueue ''Two'' ''fr'' ''default''
           (snd (enqueue ''One'' ''fr'' ''default'' fresh))))))"

text \<open>An event that rejects a promise.\<close>

definition rejection :: "event \<Rightarrow> bool" where
  "rejection ev = (case ev of Settled p (Rejected e) \<Rightarrow> True | _ \<Rightarrow> False)"

text \<open>The collecting queue after a request for \<open>t\<close> with promise \<open>p\<close> has joined it.\<close>

definition joined :: "string \<Rightarrow> nat \<Rightarrow> QueueItem list \<Rightarrow> QueueItem list" where
  "joined t p q =
     (if find (\<lambda>i. qtext i = t) q = None
      then q @ [\<lparr>qtext = t, qresolve = [p], qreject = [p]\<rparr>]
      else piggyback t p q)"

text \<open>
  More sample runs: the storage root is changed; the size threshold is \<open>3\<close> and two texts
  are queued; one text is queued.
\<close>

definition relocated :: "world \<Rightarrow> world" where
  "relocated w = configure (\<lambda>c. c\<lparr>localesDir := ''/srv/other''\<rparr>) w"

definition two_queued :: world where
  "two_queued =
     snd (enqueue ''Two'' ''fr'' ''default''
       (snd (enqueue ''One'' ''fr'' ''default''
         (configure (\<lambda>c. c\<lparr>batchSize := 3, batchDelay := 100\<rparr>) fresh))))"

definition goodbye_queued :: world where
  "goodbye_queued = snd (enqueue ''Goodbye'' ''fr'' ''default'' fresh)"

text \<open>
  A sample run in which calls overlap: \<open>setCached\<close> and \<open>getCached\<close> are called one
  after the other on a partition that is not in memory, so that both read the file; the
  read of \<open>setCached\<close> completes, then the read of \<open>getCached\<close>, then \<open>setCached\<close> runs to
  its end.
\<close>

definition put_and_get_together :: world where
  "put_and_get_together =
     finish 0 silent None
       (resume 1 silent None
         (resume 0 silent None
           (snd (getCached ''Hello'' ''fr'' ''default''
             (snd (setCached ''Hello'' ''Bonjour'' ''fr'' ''default'' fresh))))))"

section \<open>Reachable states\<close>

text \<open>
  What can happen to a process, one step at a time and in any order: the configuration is
  changed, files are edited from outside, the exported functions of \<open>cache.ts\<close> and
  \<open>enqueue\<close> are called, a timer fires, a suspended call is resumed (with any answer of the
  generator, with or without a failing operation of the file system). \<open>later w w'\<close> says
  that \<open>w'\<close> comes about from \<open>w\<close> in this way; the reachable states are those that come
  about from the start of a process.
\<close>

inductive step :: "world \<Rightarrow> world \<Rightarrow> bool" where
  configures: "step w (configure partial w)"
| edits: "step w (w\<lparr>disk := files\<rparr>)"
| gets: "step w (snd (getCached txt lang ctx w))"
| sets: "step w (snd (setCached txt translation lang ctx w))"
| sets_batch: "step w (snd (setCachedBatch entries lang ctx w))"
| gets_all: "step w (snd (getAllCached lang ctx w))"
| enqueues: "step w (snd (enqueue txt lang ctx w))"
| fires: "step w (timer_fires key w)"
| resumes: "step w (resume k gen fault w)"

inductive later :: "world \<Rightarrow> world \<Rightarrow> bool" where
  now: "later w w"
| after: "later w w' \<Longrightarrow> step w' w'' \<Longrightarrow> later w w''"

definition reachable :: "world \<Rightarrow> bool" where
  "reachable w = (\<exists>cfg files. later (start cfg files) w)"

text \<open>
  What holds of the promises in every reachable state. The closures of a queue hold
  promises that exist and are pending, a \<open>reject\<close> closure settles no promise that the
  \<open>resolve\<close> closure of its item does not settle, and no promise is held twice: not in one
  queue, not in two queues, not in a queue and a batch in flight, not in two batches in
  flight.
\<close>

definition separate :: "QueueItem list \<Rightarrow> QueueItem list \<Rightarrow> bool" where
  "separate a b = (\<forall>i\<in>set a. \<forall>i'\<in>set b. waiters i \<inter> waiters i' = {})"

definition sound_queue :: "world \<Rightarrow> QueueItem list \<Rightarrow> bool" where
  "sound_queue w q =
     ((\<forall>i\<in>set q. (\<forall>p\<in>waiters i. p < next_promise w \<and> promises w p = None) \<and>
                  set (qreject i) \<subseteq> set (qresolve i)) \<and>
      distinct (concat (map qresolve q)))"

fun jobs_separate :: "job list \<Rightarrow> bool" where
  "jobs_separate [] = True"
| "jobs_separate (j # js) =
     ((\<forall>j'\<in>set js. separate (jqueue j) (jqueue j')) \<and> jobs_separate js)"

definition sound :: "world \<Rightarrow> bool" where
  "sound w =
     ((\<forall>key q. queues w key = Some q \<longrightarrow> sound_queue w q) \<and>
      (\<forall>j\<in>set (flushing w). sound_queue w (jqueue j)) \<and>
      (\<forall>k1 k2 q1 q2. k1 \<noteq> k2 \<longrightarrow> queues w k1 = Some q1 \<longrightarrow> queues w k2 = Some q2 \<longrightarrow>
         separate q1 q2) \<and>
      (\<forall>key q. queues w key = Some q \<longrightarrow> (\<forall>j\<in>set (flushing w). separate q (jqueue j))) \<and>
      jobs_separate (flushing w))"

text \<open>A promise is held when a closure of a queue or of a batch in flight can settle it.\<close>

definition holds :: "world \<Rightarrow> nat \<Rightarrow> bool" where
  "holds w p =
     ((\<exists>key q. queues w key = Some q \<and> (\<exists>i\<in>set q. p \<in> waiters i)) \<or>
      (\<exists>j\<in>set (flushing w). \<exists>i\<in>set (jqueue j). p \<in> waiters i))"

text \<open>
  What resuming a call does to the queues and the promises, for the proofs: \<open>jo\<close> is the
  batch of the call, if it is a call of \<open>flush\<close>. Either the call is suspended again,
  with the same batch, and no promise has changed; or it has finished, and only promises
  of its batch have changed.
\<close>

definition advances :: "job option \<Rightarrow> world \<Rightarrow> task \<times> world \<Rightarrow> bool" where
  "advances jo w r =
     (case r of
        (t', w') \<Rightarrow>
          queues w' = queues w \<and> timers w' = timers w \<and> next_promise w' = next_promise w \<and>
          tasks w' = tasks w \<and>
          (task_job t' = jo \<and> promises w' = promises w \<or>
           t' = Finished \<and>
           (\<forall>p. (case jo of None \<Rightarrow> True | Some j \<Rightarrow> \<forall>i\<in>set (jqueue j). p \<notin> waiters i) \<longrightarrow>
                promises w' p = promises w p)))"

section \<open>Properties\<close>

lemma selectExamples_all:
  "int (length cache) \<le> n \<Longrightarrow> selectExamples cache n = cache"
  by (simp add: selectExamples_def Object_entries_def)

text \<open>
  C6. \<open>selectExamples\<close> with \<open>maxExamples = 0\<close> on a cache that holds one pair returns that
  pair, not the empty mapping: none of the pairs should have been selected.
\<close>

theorem selectExamples_zero_returns_all:
  "selectExamples [(''Hello'', ''Bonjour'')] 0 = [(''Hello'', ''Bonjour'')]"
  by (simp add: selectExamples_def Object_entries_def Object_fromEntries_def js_slice_def
      js_define_def add_property_def array_index_def is_digit_def)

subsection \<open>JavaScript objects\<close>

lemma map_of_replace_value:
  "k \<in> fst ` set obj \<Longrightarrow> map_of (replace_value k v obj) k = Some v"
  by (induction obj) (auto simp: replace_value_def)

lemma map_of_insert_index:
  "k \<notin> fst ` set obj \<Longrightarrow> map_of (insert_index n k v obj) k = Some v"
  by (induction obj) (auto split: option.splits)

lemma map_of_add_property:
  assumes "k \<notin> fst ` set obj"
  shows "map_of (add_property k v obj) k = Some v"
proof -
  from assms have "map_of obj k = None" by (simp add: map_of_eq_None_iff)
  with assms show ?thesis
    by (simp add: add_property_def map_of_insert_index map_add_def split: option.splits)
qed

lemma js_get_js_set:
  "k \<noteq> ''__proto__'' \<Longrightarrow> js_get (js_set obj k v) k = Str v"
  by (simp add: js_get_def js_set_def map_of_replace_value map_of_add_property)

lemma js_get_Some: "map_of tr k = Some v \<Longrightarrow> js_get tr k = Str v"
  by (simp add: js_get_def)

lemma js_get_None:
  "map_of tr k = None \<Longrightarrow> k \<notin> set object_prototype_names \<Longrightarrow> js_get tr k = Undefined"
  by (simp add: js_get_def)

lemma map_of_replace_value_other:
  "k' \<noteq> k \<Longrightarrow> map_of (replace_value k v obj) k' = map_of obj k'"
  by (induction obj) (auto simp: replace_value_def)

lemma map_of_insert_index_other:
  "k' \<noteq> k \<Longrightarrow> map_of (insert_index n k v obj) k' = map_of obj k'"
  by (induction obj) (auto split: option.splits)

lemma map_of_add_property_other:
  "k' \<noteq> k \<Longrightarrow> map_of (add_property k v obj) k' = map_of obj k'"
  by (simp add: add_property_def map_of_insert_index_other map_add_def split: option.splits)

lemma map_of_js_set_other:
  "k' \<noteq> k \<Longrightarrow> map_of (js_set obj k v) k' = map_of obj k'"
  by (simp add: js_set_def map_of_replace_value_other map_of_add_property_other)

lemma map_of_js_set:
  "k \<noteq> ''__proto__'' \<Longrightarrow> map_of (js_set obj k v) k = Some v"
  by (simp add: js_set_def map_of_replace_value map_of_add_property)

text \<open>
  \<open>Object.assign\<close> from an object, whose keys are distinct: every key of the source other
  than \<open>__proto__\<close> has the source's value in the target afterwards.
\<close>

lemma map_of_Object_assign:
  assumes "distinct (map fst source)" and "map_of source k = Some v" and "k \<noteq> ''__proto__''"
  shows "map_of (Object_assign target source) k = Some v"
  using assms
proof (induction source arbitrary: target)
  case Nil
  then show ?case by simp
next
  case (Cons kv source)
  obtain k' v' where kv: "kv = (k', v')" by (cases kv)
  have step: "Object_assign target (kv # source) = Object_assign (js_set target k' v') source"
    by (simp add: Object_assign_def kv)
  show ?case
  proof (cases "k' = k")
    case True
    with Cons.prems kv have v: "v' = v" and notin: "k \<notin> fst ` set source" by auto
    have keep: "map_of (Object_assign t source) k = map_of t k" for t
      using notin
    proof (induction source arbitrary: t)
      case Nil
      then show ?case by (simp add: Object_assign_def)
    next
      case (Cons a source)
      obtain ka va where a: "a = (ka, va)" by (cases a)
      with Cons.prems have ne: "k \<noteq> ka" and rest: "k \<notin> fst ` set source" by auto
      have "Object_assign t (a # source) = Object_assign (js_set t ka va) source"
        by (simp add: Object_assign_def a)
      with Cons.IH[OF rest, of "js_set t ka va"] ne show ?case
        by (simp add: map_of_js_set_other)
    qed
    from True v Cons.prems(3) show ?thesis
      by (simp add: step keep map_of_js_set)
  next
    case False
    with Cons.prems kv have "distinct (map fst source)" "map_of source k = Some v" by auto
    from Cons.IH[OF this Cons.prems(3)] show ?thesis by (simp add: step)
  qed
qed

subsection \<open>Settling promises\<close>

lemma promises_settle:
  "promises (settle out p w) q =
     (if q = p \<and> promises w p = None then Some out else promises w q)"
  by (simp add: settle_def)

lemma promises_call:
  "promises (call ps out w) q =
     (if q \<in> set ps \<and> promises w q = None then Some out else promises w q)"
  unfolding call_def
  by (induction ps arbitrary: w) (auto simp: promises_settle)

lemma settle_frame:
  "config (settle out p w) = config w \<and> memCache (settle out p w) = memCache w \<and>
   heap (settle out p w) = heap w \<and> locks (settle out p w) = locks w \<and>
   disk (settle out p w) = disk w \<and> queues (settle out p w) = queues w \<and>
   timers (settle out p w) = timers w \<and> tasks (settle out p w) = tasks w \<and>
   replies (settle out p w) = replies w \<and>
   next_promise (settle out p w) = next_promise w"
  by (simp add: settle_def)

lemma call_frame:
  "config (call ps out w) = config w \<and> memCache (call ps out w) = memCache w \<and>
   heap (call ps out w) = heap w \<and> locks (call ps out w) = locks w \<and>
   disk (call ps out w) = disk w \<and> queues (call ps out w) = queues w \<and>
   timers (call ps out w) = timers w \<and> tasks (call ps out w) = tasks w \<and>
   replies (call ps out w) = replies w \<and>
   next_promise (call ps out w) = next_promise w"
  unfolding call_def
  by (induction ps arbitrary: w) (simp_all add: settle_frame)

lemma trace_settle:
  "trace (settle out p w) = (if promises w p = None then trace w @ [Settled p out] else trace w)"
  by (simp add: settle_def)

lemma trace_call:
  "\<exists>es. trace (call ps out w) = trace w @ es \<and> set es \<subseteq> {Settled p out |p. p \<in> set ps}"
proof (induction ps arbitrary: w)
  case Nil
  then show ?case by (simp add: call_def)
next
  case (Cons p ps)
  obtain es where es: "trace (call ps out (settle out p w)) = trace (settle out p w) @ es"
    "set es \<subseteq> {Settled p out |p. p \<in> set ps}"
    using Cons.IH[of "settle out p w"] by blast
  have c: "call (p # ps) out w = call ps out (settle out p w)"
    by (simp add: call_def)
  show ?case
  proof (cases "promises w p = None")
    case True
    with es have "trace (call (p # ps) out w) = trace w @ (Settled p out # es)"
      by (simp add: c trace_settle)
    moreover from es(2) have "set (Settled p out # es) \<subseteq> {Settled q out |q. q \<in> set (p # ps)}"
      by auto
    ultimately show ?thesis by blast
  next
    case False
    with es have "trace (call (p # ps) out w) = trace w @ es"
      by (simp add: c trace_settle)
    moreover from es(2) have "set es \<subseteq> {Settled q out |q. q \<in> set (p # ps)}"
      by auto
    ultimately show ?thesis by blast
  qed
qed

subsection \<open>The loops of flush\<close>

lemma resolve_all_settled:
  "promises w p = Some out \<Longrightarrow> promises (resolve_all tr q w) p = Some out"
  by (induction q arbitrary: w) (simp_all add: Let_def promises_call)

lemma reject_all_settled:
  "promises w p = Some out \<Longrightarrow> promises (reject_all e q w) p = Some out"
  by (induction q arbitrary: w) (simp_all add: promises_call)

lemma resolve_all_untouched:
  "\<forall>i\<in>set q. p \<notin> waiters i \<Longrightarrow> promises (resolve_all tr q w) p = promises w p"
  by (induction q arbitrary: w) (simp_all add: Let_def promises_call waiters_def)

lemma resolve_all_append:
  "resolve_all tr (xs @ ys) w = resolve_all tr ys (resolve_all tr xs w)"
  by (induction xs arbitrary: w) (simp_all add: Let_def)

lemma resolve_all_frame:
  "config (resolve_all tr q w) = config w \<and> memCache (resolve_all tr q w) = memCache w \<and>
   heap (resolve_all tr q w) = heap w \<and> locks (resolve_all tr q w) = locks w \<and>
   disk (resolve_all tr q w) = disk w \<and> queues (resolve_all tr q w) = queues w \<and>
   timers (resolve_all tr q w) = timers w \<and> tasks (resolve_all tr q w) = tasks w \<and>
   replies (resolve_all tr q w) = replies w \<and>
   next_promise (resolve_all tr q w) = next_promise w"
  by (induction q arbitrary: w) (simp_all add: Let_def call_frame)

lemma reject_all_frame:
  "config (reject_all e q w) = config w \<and> memCache (reject_all e q w) = memCache w \<and>
   heap (reject_all e q w) = heap w \<and> locks (reject_all e q w) = locks w \<and>
   disk (reject_all e q w) = disk w \<and> queues (reject_all e q w) = queues w \<and>
   timers (reject_all e q w) = timers w \<and> tasks (reject_all e q w) = tasks w \<and>
   replies (reject_all e q w) = replies w \<and>
   next_promise (reject_all e q w) = next_promise w"
  by (induction q arbitrary: w) (simp_all add: call_frame)

lemma reject_all_untouched:
  "\<forall>i\<in>set q. p \<notin> set (qreject i) \<Longrightarrow> promises (reject_all e q w) p = promises w p"
  by (induction q arbitrary: w) (simp_all add: promises_call)

lemma reject_all_others:
  "\<forall>i\<in>set q. p \<notin> waiters i \<Longrightarrow> promises (reject_all e q w) p = promises w p"
  by (rule reject_all_untouched) (simp add: waiters_def)

lemma resolve_all_item:
  assumes "\<forall>i\<in>set before. p \<notin> waiters i" and "promises w p = None"
  shows "truthy (js_get tr (qtext item)) \<Longrightarrow> p \<in> set (qresolve item) \<Longrightarrow>
           promises (resolve_all tr (before @ item # after) w) p =
             Some (Resolved (js_get tr (qtext item)))"
    and "\<not> truthy (js_get tr (qtext item)) \<Longrightarrow> p \<in> set (qreject item) \<Longrightarrow>
           promises (resolve_all tr (before @ item # after) w) p =
             Some (Rejected (NoTranslation (qtext item)))"
proof -
  let ?w1 = "resolve_all tr before w"
  have p1: "promises ?w1 p = None"
    using assms by (simp add: resolve_all_untouched)
  have split: "resolve_all tr (before @ item # after) w =
          resolve_all tr after
            (if truthy (js_get tr (qtext item))
             then call (qresolve item) (Resolved (js_get tr (qtext item))) ?w1
             else call (qreject item) (Rejected (NoTranslation (qtext item))) ?w1)"
    by (simp add: resolve_all_append Let_def)
  show "truthy (js_get tr (qtext item)) \<Longrightarrow> p \<in> set (qresolve item) \<Longrightarrow>
           promises (resolve_all tr (before @ item # after) w) p =
             Some (Resolved (js_get tr (qtext item)))"
    using p1 by (simp add: split resolve_all_settled promises_call)
  show "\<not> truthy (js_get tr (qtext item)) \<Longrightarrow> p \<in> set (qreject item) \<Longrightarrow>
           promises (resolve_all tr (before @ item # after) w) p =
             Some (Rejected (NoTranslation (qtext item)))"
    using p1 by (simp add: split resolve_all_settled promises_call)
qed

lemma trace_call_prefix: "\<exists>es. trace (call ps out w) = trace w @ es"
  using trace_call[of ps out w] by blast

subsection \<open>Resuming a call\<close>

lemma advances_transfer:
  assumes "advances jo w0 r"
    and "queues w0 = queues w" "timers w0 = timers w" "next_promise w0 = next_promise w"
        "tasks w0 = tasks w" "promises w0 = promises w"
  shows "advances jo w r"
  using assms by (simp add: advances_def split: prod.splits)

lemma advances_suspended:
  "task_job t = jo \<Longrightarrow> advances jo w (t, w)"
  by (simp add: advances_def)

lemma advances_return: "advances None w (Finished, return k r w)"
  by (simp add: advances_def return_def)

lemma advances_reject_all: "advances (Some j) w (Finished, reject_all e (jqueue j) w)"
  by (simp add: advances_def reject_all_frame reject_all_others)

lemma advances_resolve_all: "advances (Some j) w (Finished, resolve_all tr (jqueue j) w)"
  by (simp add: advances_def resolve_all_frame resolve_all_untouched)

lemma withLock_finally_advances:
  "advances (caller_job (pcaller p)) w (withLock_finally k p failure w)"
proof (cases "pcaller p")
  case Outside
  have "advances None (w\<lparr>locks := locks w - {plock p}\<rparr>)
          (Finished, return k (case failure of None \<Rightarrow> Completed | Some e \<Rightarrow> Thrown e)
             (w\<lparr>locks := locks w - {plock p}\<rparr>))"
    by (rule advances_return)
  then have "advances None w
          (Finished, return k (case failure of None \<Rightarrow> Completed | Some e \<Rightarrow> Thrown e)
             (w\<lparr>locks := locks w - {plock p}\<rparr>))"
    by (rule advances_transfer) simp_all
  with Outside show ?thesis by (simp add: withLock_finally_def Let_def)
next
  case (Flush j tr)
  let ?w1 = "w\<lparr>locks := locks w - {plock p}\<rparr>"
  have "advances (Some j) ?w1 (Finished, flush_setCachedBatch j tr failure ?w1)"
    by (cases failure) (simp_all add: flush_setCachedBatch_def advances_reject_all advances_resolve_all)
  then have "advances (Some j) w (Finished, flush_setCachedBatch j tr failure ?w1)"
    by (rule advances_transfer) simp_all
  with Flush show ?thesis by (simp add: withLock_finally_def Let_def)
qed

lemma saveCache_mkdir_advances:
  "advances (caller_job (pcaller p)) w (saveCache_mkdir fault k p filePath data w)"
  by (simp add: saveCache_mkdir_def withLock_finally_advances advances_suspended)

lemma saveCache_writeFile_advances:
  "advances (caller_job (pcaller p)) w (saveCache_writeFile fault k p filePath content w)"
proof -
  let ?w1 = "w\<lparr>disk := (disk w)(filePath @ ''.tmp'' \<mapsto> Json content)\<rparr>"
  have "advances (caller_job (pcaller p)) ?w1 (Put_rename p filePath, ?w1)"
    by (rule advances_suspended) simp
  then have "advances (caller_job (pcaller p)) w (Put_rename p filePath, ?w1)"
    by (rule advances_transfer) simp_all
  then show ?thesis
    by (simp add: saveCache_writeFile_def Let_def withLock_finally_advances)
qed

lemma saveCache_rename_advances:
  "advances (caller_job (pcaller p)) w (saveCache_rename fault k p filePath w)"
proof (cases "disk w (filePath @ ''.tmp'')")
  case None
  then show ?thesis
    by (simp add: saveCache_rename_def Let_def withLock_finally_advances)
next
  case (Some moved)
  let ?w1 = "w\<lparr>disk := ((disk w)(filePath @ ''.tmp'' := None))(filePath \<mapsto> moved),
                trace := trace w @ [Saved filePath moved]\<rparr>"
  have "advances (caller_job (pcaller p)) ?w1 (withLock_finally k p None ?w1)"
    by (rule withLock_finally_advances)
  then have "advances (caller_job (pcaller p)) w (withLock_finally k p None ?w1)"
    by (rule advances_transfer) simp_all
  with Some show ?thesis
    by (simp add: saveCache_rename_def Let_def withLock_finally_advances)
qed

lemma loadCache_readFile_frame:
  assumes "loadCache_readFile key filePath content w = (r, w1)"
  shows "queues w1 = queues w \<and> timers w1 = timers w \<and> next_promise w1 = next_promise w \<and>
         tasks w1 = tasks w \<and> promises w1 = promises w \<and> config w1 = config w \<and>
         disk w1 = disk w \<and> trace w1 = trace w \<and> locks w1 = locks w \<and> replies w1 = replies w"
  using assms
  by (auto simp: loadCache_readFile_def Let_def split: option.splits cache_file.splits)

lemma put_loadCache_advances:
  "advances (caller_job (pcaller p)) w (put_loadCache k p r w)"
proof (cases r)
  case (Inl e)
  then show ?thesis by (simp add: put_loadCache_def withLock_finally_advances)
next
  case (Inr cache)
  let ?w2 = "w\<lparr>heap := (heap w)(cache := apply_upsert (pupsert p) (heap w cache)),
                memCache := (memCache w)(pkey p \<mapsto> cache)\<rparr>"
  have "advances (caller_job (pcaller p)) ?w2
          (Put_mkdir p (getCachePath (plang p) (pctx p) ?w2) cache, ?w2)"
    by (rule advances_suspended) simp
  then have "advances (caller_job (pcaller p)) w
          (Put_mkdir p (getCachePath (plang p) (pctx p) ?w2) cache, ?w2)"
    by (rule advances_transfer) simp_all
  with Inr show ?thesis by (simp add: put_loadCache_def saveCache_def Let_def)
qed

lemma put_critical_advances:
  "advances (caller_job (pcaller p)) w (put_critical k p w)"
  by (cases "loadCache (plang p) (pctx p) w")
     (simp_all add: put_critical_def put_loadCache_advances advances_suspended)

lemma withLock_advances:
  "advances (caller_job (pcaller p)) w (withLock k p w)"
proof (cases "plock p \<in> locks w")
  case True
  then show ?thesis by (simp add: withLock_def advances_suspended)
next
  case False
  let ?w1 = "w\<lparr>locks := insert (plock p) (locks w)\<rparr>"
  have "advances (caller_job (pcaller p)) ?w1 (put_critical k p ?w1)"
    by (rule put_critical_advances)
  then have "advances (caller_job (pcaller p)) w (put_critical k p ?w1)"
    by (rule advances_transfer) simp_all
  with False show ?thesis by (simp add: withLock_def)
qed

lemma put_call_advances:
  "advances (caller_job who) w (put_call u lang ctx who k w)"
  using withLock_advances[of "\<lparr>pkey = getCacheKey lang ctx w, plock = getCachePath lang ctx w,
      plang = lang, pctx = ctx, pupsert = u, pcaller = who\<rparr>" w k]
  by (simp add: put_call_def Let_def)

lemma flush_translate_advances:
  "advances (Some j) w (flush_translate k j r w)"
proof (cases r)
  case (Inl e)
  then show ?thesis by (simp add: flush_translate_def advances_reject_all)
next
  case (Inr tr)
  with put_call_advances[of "Flush j tr" w "Assign_all tr" "jlang j" "jctx j" k]
  show ?thesis by (simp add: flush_translate_def)
qed

lemma flush_getAllCached_advances:
  "advances (Some j) w (flush_getAllCached k j r w)"
proof (cases r)
  case (Inl e)
  then show ?thesis by (simp add: flush_getAllCached_def advances_reject_all)
next
  case (Inr allCached)
  let ?ex = "selectExamples allCached (maxExamples (jconfig j))"
  let ?w1 = "w\<lparr>trace := trace w @ [Translate k (juniqueTexts j) (jlang j) ?ex]\<rparr>"
  have "advances (Some j) ?w1 (Flush_translate j ?ex, ?w1)"
    by (rule advances_suspended) simp
  then have "advances (Some j) w (Flush_translate j ?ex, ?w1)"
    by (rule advances_transfer) simp_all
  with Inr show ?thesis by (simp add: flush_getAllCached_def Let_def)
qed

lemma getAllCached_loadCache_advances:
  "advances who w (getAllCached_loadCache k who r w)"
proof (cases who)
  case None
  then show ?thesis by (simp add: getAllCached_loadCache_def Let_def advances_return)
next
  case (Some j)
  then show ?thesis by (simp add: getAllCached_loadCache_def Let_def flush_getAllCached_advances)
qed

lemma getCached_loadCache_advances:
  "advances None w (getCached_loadCache k txt r w)"
  by (cases r) (simp_all add: getCached_loadCache_def advances_return)

lemma continue_advances:
  "advances (task_job t) w (continue k gen fault t w)"
proof (cases t)
  case Finished
  then show ?thesis by (simp add: advances_suspended)
next
  case (GetCached_readFile key filePath text0)
  obtain r w1 where l: "loadCache_readFile key filePath (disk w filePath) w = (r, w1)"
    by (cases "loadCache_readFile key filePath (disk w filePath) w")
  have "advances None w1 (getCached_loadCache k text0 r w1)"
    by (rule getCached_loadCache_advances)
  then have "advances None w (getCached_loadCache k text0 r w1)"
    by (rule advances_transfer) (simp_all add: loadCache_readFile_frame[OF l])
  with GetCached_readFile l show ?thesis by simp
next
  case (GetAllCached_readFile key filePath who)
  obtain r w1 where l: "loadCache_readFile key filePath (disk w filePath) w = (r, w1)"
    by (cases "loadCache_readFile key filePath (disk w filePath) w")
  have "advances who w1 (getAllCached_loadCache k who r w1)"
    by (rule getAllCached_loadCache_advances)
  then have "advances who w (getAllCached_loadCache k who r w1)"
    by (rule advances_transfer) (simp_all add: loadCache_readFile_frame[OF l])
  with GetAllCached_readFile l show ?thesis by simp
next
  case (Flush_translate j examples)
  then show ?thesis by (simp add: flush_translate_advances)
next
  case (Put_lock p)
  then show ?thesis by (simp add: withLock_advances)
next
  case (Put_readFile p key filePath)
  obtain r w1 where l: "loadCache_readFile key filePath (disk w filePath) w = (r, w1)"
    by (cases "loadCache_readFile key filePath (disk w filePath) w")
  have "advances (caller_job (pcaller p)) w1 (put_loadCache k p r w1)"
    by (rule put_loadCache_advances)
  then have "advances (caller_job (pcaller p)) w (put_loadCache k p r w1)"
    by (rule advances_transfer) (simp_all add: loadCache_readFile_frame[OF l])
  with Put_readFile l show ?thesis by simp
next
  case (Put_mkdir p filePath data)
  then show ?thesis by (simp add: saveCache_mkdir_advances)
next
  case (Put_writeFile p filePath content)
  then show ?thesis by (simp add: saveCache_writeFile_advances)
next
  case (Put_rename p filePath)
  then show ?thesis by (simp add: saveCache_rename_advances)
qed

lemma resume_continue:
  assumes "k < length (tasks w)" and "continue k gen fault (tasks w ! k) w = (t', w')"
  shows "resume k gen fault w = w'\<lparr>tasks := (tasks w)[k := t']\<rparr>"
proof -
  from continue_advances[of "tasks w ! k" w k gen fault] assms(2)
  have "tasks w' = tasks w" by (simp add: advances_def)
  with assms show ?thesis by (simp add: resume_def)
qed

lemma resume_Finished:
  assumes "k < length (tasks w)" and "tasks w ! k = Finished"
  shows "resume k gen fault w = w"
proof -
  have "(tasks w)[k := Finished] = tasks w"
    using assms by (metis list_update_id)
  with assms show ?thesis by (simp add: resume_def)
qed

lemma resume_beyond: "\<not> k < length (tasks w) \<Longrightarrow> resume k gen fault w = w"
  by (simp add: resume_def)

subsection \<open>The batches in flight\<close>

lemma flushing_append: "task_job t = None \<Longrightarrow> List.map_filter task_job (ts @ [t]) = List.map_filter task_job ts"
  by (simp add: List.map_filter_def)

lemma flushing_append_job:
  "task_job t = Some j \<Longrightarrow> List.map_filter task_job (ts @ [t]) = List.map_filter task_job ts @ [j]"
  by (simp add: List.map_filter_def)

lemma map_filter_append: "List.map_filter f (xs @ ys) = List.map_filter f xs @ List.map_filter f ys"
  by (simp add: List.map_filter_def)

lemma map_filter_update_same:
  assumes "k < length ts" and "f t = f (ts ! k)"
  shows "List.map_filter f (ts[k := t]) = List.map_filter f ts"
proof -
  from assms(1) have ts: "ts = take k ts @ ts ! k # drop (Suc k) ts" by (rule id_take_nth_drop)
  from assms(1) have "ts[k := t] = take k ts @ t # drop (Suc k) ts" by (rule upd_conv_take_nth_drop)
  then have "List.map_filter f (ts[k := t]) =
      List.map_filter f (take k ts) @ List.map_filter f (t # drop (Suc k) ts)"
    by (simp add: map_filter_append)
  also have "List.map_filter f (t # drop (Suc k) ts) = List.map_filter f (ts ! k # drop (Suc k) ts)"
    using assms(2) by (simp add: List.map_filter_def)
  also have "List.map_filter f (take k ts) @ List.map_filter f (ts ! k # drop (Suc k) ts) =
      List.map_filter f (take k ts @ ts ! k # drop (Suc k) ts)"
    by (simp add: map_filter_append)
  finally show ?thesis using ts by simp
qed

lemma map_filter_update_gone:
  assumes "k < length ts" and "f (ts ! k) = Some j" and "f t = None"
  shows "\<exists>xs ys. List.map_filter f ts = xs @ j # ys \<and> List.map_filter f (ts[k := t]) = xs @ ys"
proof -
  from assms(1) have ts: "ts = take k ts @ ts ! k # drop (Suc k) ts" by (rule id_take_nth_drop)
  from assms(1) have u: "ts[k := t] = take k ts @ t # drop (Suc k) ts" by (rule upd_conv_take_nth_drop)
  let ?xs = "List.map_filter f (take k ts)" and ?ys = "List.map_filter f (drop (Suc k) ts)"
  have "List.map_filter f (take k ts @ ts ! k # drop (Suc k) ts) = ?xs @ j # ?ys"
    using assms(2) by (simp add: List.map_filter_def)
  with ts have a: "List.map_filter f ts = ?xs @ j # ?ys" by simp
  have b: "List.map_filter f (ts[k := t]) = ?xs @ ?ys"
    unfolding u using assms(3) by (simp add: List.map_filter_def)
  from a b show ?thesis by blast
qed

lemma set_map_filter: "set (List.map_filter f xs) = {y. \<exists>x\<in>set xs. f x = Some y}"
  by (induction xs) (auto split: option.splits)

lemma task_job_flushing:
  "k < length (tasks w) \<Longrightarrow> task_job (tasks w ! k) = Some j \<Longrightarrow> j \<in> set (flushing w)"
  by (auto simp: flushing_def set_map_filter)

lemma flushing_task:
  "j \<in> set (flushing w) \<Longrightarrow> \<exists>k < length (tasks w). task_job (tasks w ! k) = Some j"
  by (auto simp: flushing_def set_map_filter in_set_conv_nth)

text \<open>
  A call of \<open>cache.ts\<close> from outside: the queues, the promises and the batches in flight
  are what they were.
\<close>

lemma spawn_outside:
  assumes "\<And>k w. advances None w (f k w)"
  shows "queues (snd (spawn f w)) = queues w \<and> timers (snd (spawn f w)) = timers w \<and>
         next_promise (snd (spawn f w)) = next_promise w \<and>
         promises (snd (spawn f w)) = promises w \<and> flushing (snd (spawn f w)) = flushing w \<and>
         fst (spawn f w) = length (tasks w) \<and>
         length (tasks (snd (spawn f w))) = Suc (length (tasks w))"
proof -
  let ?k = "length (tasks w)"
  let ?w0 = "w\<lparr>replies := (replies w)(?k := None)\<rparr>"
  obtain t w1 where f: "f ?k ?w0 = (t, w1)" by (cases "f ?k ?w0")
  from assms[of ?w0 ?k] f have a: "queues w1 = queues w" "timers w1 = timers w"
    "next_promise w1 = next_promise w" "tasks w1 = tasks w" "promises w1 = promises w"
    "task_job t = None"
    by (auto simp: advances_def)
  have s: "spawn f w = (?k, w1\<lparr>tasks := tasks w1 @ [t]\<rparr>)"
    using f by (simp add: spawn_def Let_def)
  show ?thesis
    using a by (simp add: s flushing_def flushing_append)
qed

lemma getCached_call_advances: "advances None w (getCached_call t lang ctx k w)"
  by (cases "loadCache lang ctx w")
     (simp_all add: getCached_call_def getCached_loadCache_advances advances_suspended)

lemma getAllCached_call_advances: "advances who w (getAllCached_call lang ctx who k w)"
  by (cases "loadCache lang ctx w")
     (simp_all add: getAllCached_call_def getAllCached_loadCache_advances advances_suspended)

lemmas getCached_outside = spawn_outside[of "getCached_call t lang ctx", OF getCached_call_advances,
    folded getCached_def] for t lang ctx

lemmas getAllCached_outside = spawn_outside[of "getAllCached_call lang ctx None",
    OF getAllCached_call_advances, folded getAllCached_def] for lang ctx

lemma put_call_outside: "advances None w (put_call u lang ctx Outside k w)"
  using put_call_advances[of Outside w u lang ctx k] by simp

lemmas setCached_outside = spawn_outside[of "put_call (Assign t v) lang ctx Outside",
    OF put_call_outside, folded setCached_def] for t v lang ctx

lemmas setCachedBatch_outside = spawn_outside[of "put_call (Assign_all entries) lang ctx Outside",
    OF put_call_outside, folded setCachedBatch_def] for entries lang ctx

text \<open>\<open>flush\<close> detaches the queue of its key, if there is one, as a new batch in flight.\<close>

lemma getAllCached_call_flush:
  assumes "getAllCached_call lang ctx (Some j) k w = (t, w')"
  shows "task_job t = Some j \<and> queues w' = queues w \<and> timers w' = timers w \<and>
         next_promise w' = next_promise w \<and> promises w' = promises w \<and> tasks w' = tasks w \<and>
         config w' = config w \<and> disk w' = disk w \<and> memCache w' = memCache w \<and>
         heap w' = heap w \<and> locks w' = locks w \<and> replies w' = replies w"
  using assms
  by (auto simp: getAllCached_call_def getAllCached_loadCache_def flush_getAllCached_def Let_def
      split: load.splits)

lemma flush_shape:
  assumes "queues w (getQueueKey lang ctx) = Some q" and "q \<noteq> []"
  shows "queues (flush lang ctx w) = (queues w)(getQueueKey lang ctx := None) \<and>
         flushing (flush lang ctx w) =
           flushing w @ [\<lparr>jlang = lang, jctx = ctx, jqueue = q,
                           juniqueTexts = unique (map qtext q), jconfig = config w\<rparr>] \<and>
         timers (flush lang ctx w) = timers w \<and> promises (flush lang ctx w) = promises w \<and>
         next_promise (flush lang ctx w) = next_promise w \<and> config (flush lang ctx w) = config w \<and>
         length (tasks (flush lang ctx w)) = Suc (length (tasks w))"
proof -
  let ?key = "getQueueKey lang ctx"
  let ?j = "\<lparr>jlang = lang, jctx = ctx, jqueue = q,
             juniqueTexts = unique (map qtext q), jconfig = config w\<rparr>"
  let ?w1 = "w\<lparr>queues := (queues w)(?key := None)\<rparr>"
  let ?k = "length (tasks w)"
  let ?w0 = "?w1\<lparr>replies := (replies ?w1)(?k := None)\<rparr>"
  obtain t w' where c: "getAllCached_call lang ctx (Some ?j) ?k ?w0 = (t, w')"
    by (cases "getAllCached_call lang ctx (Some ?j) ?k ?w0")
  note f = getAllCached_call_flush[OF c]
  have eq: "flush lang ctx w = w'\<lparr>tasks := tasks w' @ [t]\<rparr>"
    using assms c by (simp add: flush_def spawn_def Let_def getConfig_def)
  show ?thesis
    using f by (simp add: eq flushing_def flushing_append_job)
qed

lemma flush_nothing:
  "queues w (getQueueKey lang ctx) = None \<or> queues w (getQueueKey lang ctx) = Some [] \<Longrightarrow>
     flush lang ctx w = w"
  by (auto simp: flush_def)

subsection \<open>Piggybacking\<close>

lemma find_split:
  "find P xs = Some x \<Longrightarrow> \<exists>before after. xs = before @ x # after \<and> (\<forall>y\<in>set before. \<not> P y) \<and> P x"
proof (induction xs)
  case Nil
  then show ?case by simp
next
  case (Cons a xs)
  show ?case
  proof (cases "P a")
    case True
    with Cons.prems have "a # xs = [] @ x # xs \<and> (\<forall>y\<in>set []. \<not> P y) \<and> P x" by simp
    then show ?thesis by blast
  next
    case False
    with Cons.prems have "find P xs = Some x" by simp
    from Cons.IH[OF this] obtain before after where
      "xs = before @ x # after" "\<forall>y\<in>set before. \<not> P y" "P x" by blast
    with False have "a # xs = (a # before) @ x # after \<and> (\<forall>y\<in>set (a # before). \<not> P y) \<and> P x"
      by simp
    then show ?thesis by blast
  qed
qed

lemma find_piggyback:
  "find (\<lambda>i. qtext i = t) q = Some i \<Longrightarrow>
     find (\<lambda>i. qtext i = t) (piggyback t p q) = Some (i\<lparr>qresolve := qresolve i @ [p]\<rparr>)"
  by (induction q) (auto split: if_splits)

lemma piggyback_others:
  "x \<in> set (piggyback t p q) \<Longrightarrow> qtext x \<noteq> t \<Longrightarrow> x \<in> set q"
  by (induction q) (auto split: if_splits)

lemma find_append_new:
  "find P q = None \<Longrightarrow> P x \<Longrightarrow> find P (q @ [x]) = Some x"
  by (induction q) (auto split: if_splits)

lemma piggyback_waiters:
  "x \<in> set (piggyback t p q) \<Longrightarrow> waiters x \<subseteq> (\<Union>i\<in>set q. waiters i) \<union> {p}"
  by (induction q) (auto simp: waiters_def split: if_splits)

lemma joined_waiters:
  "x \<in> set (joined t p q) \<Longrightarrow> waiters x \<subseteq> (\<Union>i\<in>set q. waiters i) \<union> {p}"
  by (auto simp: joined_def waiters_def dest!: piggyback_waiters split: if_splits)

lemma piggyback_reject:
  "\<forall>i\<in>set q. set (qreject i) \<subseteq> set (qresolve i) \<Longrightarrow>
     \<forall>i\<in>set (piggyback t p q). set (qreject i) \<subseteq> set (qresolve i)"
  by (induction q) auto

lemma joined_reject:
  "\<forall>i\<in>set q. set (qreject i) \<subseteq> set (qresolve i) \<Longrightarrow>
     \<forall>i\<in>set (joined t p q). set (qreject i) \<subseteq> set (qresolve i)"
  using piggyback_reject[of q t p] by (auto simp: joined_def)

lemma piggyback_resolves:
  "set (concat (map qresolve (piggyback t p q))) \<subseteq> set (concat (map qresolve q)) \<union> {p}"
  by (induction q) auto

lemma piggyback_distinct:
  "distinct (concat (map qresolve q)) \<Longrightarrow> p \<notin> set (concat (map qresolve q)) \<Longrightarrow>
     distinct (concat (map qresolve (piggyback t p q)))"
proof (induction q)
  case Nil
  then show ?case by simp
next
  case (Cons a q)
  show ?case
  proof (cases "qtext a = t")
    case True
    with Cons.prems show ?thesis by auto
  next
    case False
    from Cons.prems have d: "distinct (concat (map qresolve (piggyback t p q)))"
      by (intro Cons.IH) auto
    from Cons.prems piggyback_resolves[of t p q]
    have "set (qresolve a) \<inter> set (concat (map qresolve (piggyback t p q))) = {}"
      by auto
    with Cons.prems d False show ?thesis by simp
  qed
qed

lemma joined_distinct:
  "distinct (concat (map qresolve q)) \<Longrightarrow> p \<notin> set (concat (map qresolve q)) \<Longrightarrow>
     distinct (concat (map qresolve (joined t p q)))"
  by (simp add: joined_def piggyback_distinct)

lemma joined_find:
  "\<exists>i. find (\<lambda>i. qtext i = t) (joined t p q) = Some i \<and> p \<in> set (qresolve i) \<and>
       (\<forall>i0. find (\<lambda>i. qtext i = t) q = Some i0 \<longrightarrow> set (qresolve i0) \<subseteq> set (qresolve i))"
proof (cases "find (\<lambda>i. qtext i = t) q")
  case None
  then show ?thesis by (simp add: joined_def find_append_new)
next
  case (Some i0)
  then show ?thesis by (auto simp: joined_def find_piggyback)
qed

lemma joined_others: "x \<in> set (joined t p q) \<Longrightarrow> qtext x \<noteq> t \<Longrightarrow> x \<in> set q"
  by (auto simp: joined_def dest: piggyback_others split: if_splits)

lemma collecting_Some: "queues w key = Some q \<Longrightarrow> collecting w key = q"
  by (simp add: collecting_def)

text \<open>
  What \<open>enqueue\<close> does: the request joins the queue of its key; then nothing more happens,
  or the timer is armed, or the timer is deleted and the queue is flushed.
\<close>

lemma enqueue_shape:
  fixes w t lang ctx
  defines "wb \<equiv> w\<lparr>next_promise := Suc (next_promise w),
                    promises := (promises w)(next_promise w := None),
                    queues := (queues w)(getQueueKey lang ctx \<mapsto>
                      joined t (next_promise w) (collecting w (getQueueKey lang ctx)))\<rparr>"
  shows "fst (enqueue t lang ctx w) = next_promise w \<and>
         (snd (enqueue t lang ctx w) = wb \<or>
          snd (enqueue t lang ctx w) =
            wb\<lparr>timers := (timers w)(getQueueKey lang ctx \<mapsto> (lang, ctx))\<rparr> \<or>
          snd (enqueue t lang ctx w) =
            flush lang ctx (wb\<lparr>timers := (timers w)(getQueueKey lang ctx := None)\<rparr>))"
  unfolding wb_def
  by (auto simp: enqueue_def joined_def collecting_def Let_def split: option.splits)

subsection \<open>Soundness of the reachable states\<close>

lemma separate_sym: "separate a b \<Longrightarrow> separate b a"
  by (auto simp: separate_def)

lemma sound_queue_cong:
  "next_promise w' = next_promise w \<Longrightarrow> promises w' = promises w \<Longrightarrow>
     sound_queue w' q = sound_queue w q"
  by (simp add: sound_queue_def)

lemma sound_frame:
  assumes "queues w' = queues w" "flushing w' = flushing w" "promises w' = promises w"
    "next_promise w' = next_promise w"
  shows "sound w' = sound w"
  by (simp add: sound_def assms sound_queue_cong[OF assms(4,3)])

lemma flushing_cong: "tasks w' = tasks w \<Longrightarrow> flushing w' = flushing w"
  by (simp add: flushing_def)

lemma jobs_separate_snoc:
  "jobs_separate (js @ [j]) =
     (jobs_separate js \<and> (\<forall>j'\<in>set js. separate (jqueue j') (jqueue j)))"
  by (induction js) auto

lemma jobs_separate_remove:
  "jobs_separate (xs @ y # ys) \<Longrightarrow>
     jobs_separate (xs @ ys) \<and> (\<forall>x\<in>set xs \<union> set ys. separate (jqueue y) (jqueue x))"
  by (induction xs) (auto dest: separate_sym)

lemma sound_flush:
  assumes "sound w"
  shows "sound (flush lang ctx w)"
proof (cases "queues w (getQueueKey lang ctx)")
  case None
  with assms show ?thesis by (simp add: flush_nothing)
next
  case (Some q)
  let ?key = "getQueueKey lang ctx"
  show ?thesis
  proof (cases "q = []")
    case True
    with Some assms show ?thesis by (simp add: flush_nothing)
  next
    case False
    let ?J = "\<lparr>jlang = lang, jctx = ctx, jqueue = q, juniqueTexts = unique (map qtext q),
               jconfig = config w\<rparr>"
    let ?w' = "flush lang ctx w"
    note eq = flush_shape[OF Some False]
    have sq: "sound_queue ?w' x = sound_queue w x" for x
      by (rule sound_queue_cong) (simp_all add: eq)
    from assms have a:
      "\<forall>key q. queues w key = Some q \<longrightarrow> sound_queue w q"
      "\<forall>j\<in>set (flushing w). sound_queue w (jqueue j)"
      "\<forall>k1 k2 q1 q2. k1 \<noteq> k2 \<longrightarrow> queues w k1 = Some q1 \<longrightarrow> queues w k2 = Some q2 \<longrightarrow> separate q1 q2"
      "\<forall>key q. queues w key = Some q \<longrightarrow> (\<forall>j\<in>set (flushing w). separate q (jqueue j))"
      "jobs_separate (flushing w)"
      by (simp_all add: sound_def)
    have 1: "\<forall>key x. queues ?w' key = Some x \<longrightarrow> sound_queue ?w' x"
      using a(1) by (simp add: sq eq)
    have 2: "\<forall>j\<in>set (flushing ?w'). sound_queue ?w' (jqueue j)"
      using a(1,2) Some by (auto simp: sq eq)
    have 3: "\<forall>k1 k2 q1 q2. k1 \<noteq> k2 \<longrightarrow> queues ?w' k1 = Some q1 \<longrightarrow> queues ?w' k2 = Some q2 \<longrightarrow>
        separate q1 q2"
      using a(3) by (auto simp: eq split: if_splits)
    have 4: "\<forall>key x. queues ?w' key = Some x \<longrightarrow> (\<forall>j\<in>set (flushing ?w'). separate x (jqueue j))"
      using a(3,4) Some by (auto simp: eq split: if_splits)
    have 5: "jobs_separate (flushing ?w')"
      using a(4,5) Some by (auto simp: eq jobs_separate_snoc dest: separate_sym)
    from 1 2 3 4 5 show ?thesis
      unfolding sound_def by blast
  qed
qed

lemma separate_joined:
  assumes "separate q x" and "\<forall>i\<in>set x. p \<notin> waiters i"
  shows "separate (joined t p q) x"
  unfolding separate_def
proof (intro ballI)
  fix i i' assume i: "i \<in> set (joined t p q)" and i': "i' \<in> set x"
  from joined_waiters[OF i] have "waiters i \<subseteq> (\<Union>i\<in>set q. waiters i) \<union> {p}" .
  moreover from assms(1) i' have "(\<Union>i\<in>set q. waiters i) \<inter> waiters i' = {}"
    by (auto simp: separate_def)
  moreover from assms(2) i' have "p \<notin> waiters i'" by blast
  ultimately show "waiters i \<inter> waiters i' = {}" by blast
qed

lemma separate_Nil: "separate [] x"
  by (simp add: separate_def)

lemma sound_queue_Nil: "sound_queue w []"
  by (simp add: sound_queue_def)

lemma sound_queue_resolves:
  "sound_queue w q \<Longrightarrow> set (concat (map qresolve q)) \<subseteq> (\<Union>i\<in>set q. waiters i)"
  by (auto simp: waiters_def)

lemma sound_join:
  assumes "sound w"
  shows "sound (w\<lparr>next_promise := Suc (next_promise w),
                   promises := (promises w)(next_promise w := None),
                   queues := (queues w)(key \<mapsto> joined t (next_promise w) (collecting w key))\<rparr>)"
    (is "sound ?wb")
proof -
  let ?p = "next_promise w"
  let ?q = "collecting w key"
  let ?q' = "joined t ?p ?q"
  have fl: "flushing ?wb = flushing w" by (simp add: flushing_def)
  from assms have a:
    "\<forall>key q. queues w key = Some q \<longrightarrow> sound_queue w q"
    "\<forall>j\<in>set (flushing w). sound_queue w (jqueue j)"
    "\<forall>k1 k2 q1 q2. k1 \<noteq> k2 \<longrightarrow> queues w k1 = Some q1 \<longrightarrow> queues w k2 = Some q2 \<longrightarrow> separate q1 q2"
    "\<forall>key q. queues w key = Some q \<longrightarrow> (\<forall>j\<in>set (flushing w). separate q (jqueue j))"
    "jobs_separate (flushing w)"
    by (simp_all add: sound_def)
  have old: "\<forall>i\<in>set x. ?p \<notin> waiters i" if "sound_queue w x" for x
    using that by (auto simp: sound_queue_def)
  have keep: "sound_queue ?wb x" if "sound_queue w x" for x
  proof -
    from that have "\<forall>i\<in>set x. \<forall>r\<in>waiters i. r < Suc ?p \<and> promises ?wb r = None"
      by (fastforce simp: sound_queue_def)
    with that show ?thesis by (simp add: sound_queue_def)
  qed
  have sq: "sound_queue w ?q"
  proof (cases "queues w key")
    case None
    then show ?thesis by (simp add: collecting_def sound_queue_Nil)
  next
    case (Some q0)
    with a(1) have "sound_queue w q0" by simp
    with Some show ?thesis by (simp add: collecting_def)
  qed
  have sep_q: "separate ?q x" if "queues w k = Some x" "k \<noteq> key" for k x
  proof (cases "queues w key")
    case None
    then show ?thesis by (simp add: collecting_def separate_Nil)
  next
    case (Some q0)
    from that(2) Some that(1) have "separate q0 x"
      using a(3)[rule_format, of key k q0 x] by simp
    with Some show ?thesis by (simp add: collecting_def)
  qed
  have sep_j: "separate ?q (jqueue j)" if "j \<in> set (flushing w)" for j
  proof (cases "queues w key")
    case None
    then show ?thesis by (simp add: collecting_def separate_Nil)
  next
    case (Some q0)
    from Some that have "separate q0 (jqueue j)"
      using a(4)[rule_format, of key q0 j] by simp
    with Some show ?thesis by (simp add: collecting_def)
  qed
  have new: "sound_queue ?wb ?q'"
  proof -
    have "\<forall>i\<in>set ?q'. \<forall>r\<in>waiters i. r < Suc ?p \<and> promises ?wb r = None"
    proof (intro ballI)
      fix i r assume "i \<in> set ?q'" "r \<in> waiters i"
      with joined_waiters[of i t ?p ?q] have "r = ?p \<or> (\<exists>i0\<in>set ?q. r \<in> waiters i0)" by auto
      moreover from sq have "\<forall>i0\<in>set ?q. \<forall>r\<in>waiters i0. r < ?p \<and> promises w r = None"
        by (simp add: sound_queue_def)
      ultimately show "r < Suc ?p \<and> promises ?wb r = None"
        by fastforce
    qed
    moreover from sq have "\<forall>i\<in>set ?q'. set (qreject i) \<subseteq> set (qresolve i)"
      by (intro joined_reject) (simp add: sound_queue_def)
    moreover have "distinct (concat (map qresolve ?q'))"
    proof (rule joined_distinct)
      from sq show "distinct (concat (map qresolve ?q))" by (simp add: sound_queue_def)
      from old[OF sq] sound_queue_resolves[OF sq] show "?p \<notin> set (concat (map qresolve ?q))"
        by blast
    qed
    ultimately show ?thesis by (simp add: sound_queue_def)
  qed
  have 1: "\<forall>k x. queues ?wb k = Some x \<longrightarrow> sound_queue ?wb x"
    using a(1) keep new by (auto split: if_splits)
  have 2: "\<forall>j\<in>set (flushing ?wb). sound_queue ?wb (jqueue j)"
    using a(2) keep by (simp add: fl)
  have 3: "\<forall>k1 k2 q1 q2. k1 \<noteq> k2 \<longrightarrow> queues ?wb k1 = Some q1 \<longrightarrow> queues ?wb k2 = Some q2 \<longrightarrow>
      separate q1 q2"
  proof (intro allI impI)
    fix k1 k2 q1 q2
    assume ne: "k1 \<noteq> k2" and q1: "queues ?wb k1 = Some q1" and q2: "queues ?wb k2 = Some q2"
    consider "k1 = key" "k2 \<noteq> key" | "k2 = key" "k1 \<noteq> key" | "k1 \<noteq> key" "k2 \<noteq> key"
      using ne by blast
    then show "separate q1 q2"
    proof cases
      case 1
      with q1 q2 have "q1 = ?q'" "queues w k2 = Some q2" by simp_all
      with 1 sep_q[of k2 q2] old[of q2] a(1) show ?thesis
        by (simp add: separate_joined)
    next
      case 2
      with q1 q2 have "q2 = ?q'" "queues w k1 = Some q1" by simp_all
      with 2 sep_q[of k1 q1] old[of q1] a(1) show ?thesis
        by (simp add: separate_joined separate_sym)
    next
      case 3
      with q1 q2 ne a(3) show ?thesis by simp
    qed
  qed
  have 4: "\<forall>k x. queues ?wb k = Some x \<longrightarrow> (\<forall>j\<in>set (flushing ?wb). separate x (jqueue j))"
  proof (intro allI impI ballI)
    fix k x j
    assume x: "queues ?wb k = Some x" and j: "j \<in> set (flushing ?wb)"
    then have j': "j \<in> set (flushing w)" by (simp add: fl)
    show "separate x (jqueue j)"
    proof (cases "k = key")
      case True
      with x have "x = ?q'" by simp
      with sep_j[OF j'] old[of "jqueue j"] a(2) j' show ?thesis
        by (simp add: separate_joined)
    next
      case False
      with x a(4) j' show ?thesis by simp
    qed
  qed
  have 5: "jobs_separate (flushing ?wb)"
    using a(5) by (simp add: fl)
  from 1 2 3 4 5 show ?thesis
    unfolding sound_def by blast
qed

lemma sound_timers: "sound (w\<lparr>timers := T\<rparr>) = sound w"
  by (rule sound_frame) (simp_all add: flushing_def)

lemma sound_enqueue:
  assumes "sound w"
  shows "sound (snd (enqueue t lang ctx w))"
proof -
  let ?wb = "w\<lparr>next_promise := Suc (next_promise w),
                promises := (promises w)(next_promise w := None),
                queues := (queues w)(getQueueKey lang ctx \<mapsto>
                  joined t (next_promise w) (collecting w (getQueueKey lang ctx)))\<rparr>"
  have b: "sound ?wb" using assms by (rule sound_join)
  then have t: "sound (?wb\<lparr>timers := T\<rparr>)" for T
    by (simp only: sound_timers)
  from enqueue_shape[of t lang ctx w] b t sound_flush show ?thesis
    by (elim conjE disjE) simp_all
qed

lemma sound_timer_fires: "sound w \<Longrightarrow> sound (timer_fires key w)"
proof -
  assume s: "sound w"
  then have "sound (w\<lparr>timers := T\<rparr>)" for T
    by (simp only: sound_timers)
  with s show ?thesis
    by (auto simp: timer_fires_def intro: sound_flush split: option.splits)
qed

lemma sound_queue_transfer:
  assumes "sound_queue w q" and "next_promise w' = next_promise w"
    and "\<forall>i\<in>set q. \<forall>p\<in>waiters i. promises w' p = promises w p"
  shows "sound_queue w' q"
  using assms by (simp add: sound_queue_def)

text \<open>
  What resuming task \<open>k\<close> does to the queues, the promises and the batches in flight.
\<close>

lemma resume_cases:
  assumes "k < length (tasks w)"
  shows "queues (resume k gen fault w) = queues w \<and> timers (resume k gen fault w) = timers w \<and>
         next_promise (resume k gen fault w) = next_promise w \<and>
         length (tasks (resume k gen fault w)) = length (tasks w) \<and>
         (flushing (resume k gen fault w) = flushing w \<and>
          promises (resume k gen fault w) = promises w \<or>
          (\<exists>j xs ys. task_job (tasks w ! k) = Some j \<and> flushing w = xs @ j # ys \<and>
             flushing (resume k gen fault w) = xs @ ys \<and>
             (\<forall>p. (\<forall>i\<in>set (jqueue j). p \<notin> waiters i) \<longrightarrow>
                promises (resume k gen fault w) p = promises w p)))"
proof -
  obtain t' w' where c: "continue k gen fault (tasks w ! k) w = (t', w')"
    by (cases "continue k gen fault (tasks w ! k) w")
  note eq = resume_continue[OF assms c]
  from continue_advances[of "tasks w ! k" w k gen fault] c
  have f: "queues w' = queues w" "timers w' = timers w" "next_promise w' = next_promise w"
    and d: "task_job t' = task_job (tasks w ! k) \<and> promises w' = promises w \<or>
         t' = Finished \<and>
         (\<forall>p. (case task_job (tasks w ! k) of None \<Rightarrow> True
               | Some j \<Rightarrow> \<forall>i\<in>set (jqueue j). p \<notin> waiters i) \<longrightarrow>
              promises w' p = promises w p)"
    by (simp_all add: advances_def)
  have same: "flushing (resume k gen fault w) = flushing w"
    if "task_job t' = task_job (tasks w ! k)"
    using that assms by (simp add: eq flushing_def map_filter_update_same)
  from d consider (suspended) "task_job t' = task_job (tasks w ! k)" "promises w' = promises w"
    | (outside) "t' = Finished" "task_job (tasks w ! k) = None" "\<forall>p. promises w' p = promises w p"
    | (flushed) j where "t' = Finished" "task_job (tasks w ! k) = Some j"
        "\<forall>p. (\<forall>i\<in>set (jqueue j). p \<notin> waiters i) \<longrightarrow> promises w' p = promises w p"
    by (cases "task_job (tasks w ! k)") auto
  then show ?thesis
  proof cases
    case suspended
    with same f show ?thesis by (simp add: eq)
  next
    case outside
    then have "promises w' = promises w" by blast
    with outside same f show ?thesis by (simp add: eq)
  next
    case flushed
    from map_filter_update_gone[where f = task_job and ts = "tasks w" and k = k and j = j
        and t = Finished, OF assms flushed(2)] obtain xs ys where
      "flushing w = xs @ j # ys" "flushing (resume k gen fault w) = xs @ ys"
      by (auto simp: eq flushing_def flushed(1))
    with flushed f show ?thesis by (simp add: eq) blast
  qed
qed

lemma sound_resume:
  assumes "sound w"
  shows "sound (resume k gen fault w)"
proof (cases "k < length (tasks w)")
  case False
  with assms show ?thesis by (simp add: resume_beyond)
next
  case True
  let ?w' = "resume k gen fault w"
  note r = resume_cases[OF True, of gen fault]
  then have fq: "queues ?w' = queues w" "next_promise ?w' = next_promise w" by simp_all
  from r consider "flushing ?w' = flushing w" "promises ?w' = promises w"
    | j xs ys where "flushing w = xs @ j # ys" "flushing ?w' = xs @ ys"
        "\<forall>p. (\<forall>i\<in>set (jqueue j). p \<notin> waiters i) \<longrightarrow> promises ?w' p = promises w p"
    by blast
  then show ?thesis
  proof cases
    case 1
    with fq assms show ?thesis by (simp add: sound_frame[of ?w' w])
  next
    case 2
    from assms have a:
      "\<forall>key q. queues w key = Some q \<longrightarrow> sound_queue w q"
      "\<forall>j\<in>set (flushing w). sound_queue w (jqueue j)"
      "\<forall>k1 k2 q1 q2. k1 \<noteq> k2 \<longrightarrow> queues w k1 = Some q1 \<longrightarrow> queues w k2 = Some q2 \<longrightarrow> separate q1 q2"
      "\<forall>key q. queues w key = Some q \<longrightarrow> (\<forall>j\<in>set (flushing w). separate q (jqueue j))"
      "jobs_separate (flushing w)"
      by (simp_all add: sound_def)
    from a(5) 2(1) have "jobs_separate (xs @ j # ys)" by simp
    from jobs_separate_remove[OF this] have js: "jobs_separate (xs @ ys)"
      and sj: "\<forall>x\<in>set xs \<union> set ys. separate (jqueue j) (jqueue x)" by blast+
    have jin: "j \<in> set (flushing w)" using 2(1) by simp
    have rest: "set (xs @ ys) \<subseteq> set (flushing w)" using 2(1) by auto
    have keep: "sound_queue ?w' q" if "sound_queue w q" "separate q (jqueue j)" for q
    proof (rule sound_queue_transfer[OF that(1)])
      show "next_promise ?w' = next_promise w" by (rule fq)
      show "\<forall>i\<in>set q. \<forall>p\<in>waiters i. promises ?w' p = promises w p"
      proof (intro ballI)
        fix i p assume "i \<in> set q" "p \<in> waiters i"
        with that(2) have "\<forall>i'\<in>set (jqueue j). p \<notin> waiters i'"
          by (auto simp: separate_def)
        with 2(3) show "promises ?w' p = promises w p" by blast
      qed
    qed
    have s1: "\<forall>key q. queues ?w' key = Some q \<longrightarrow> sound_queue ?w' q"
      using a(1,4) jin keep by (simp add: fq)
    have s2: "\<forall>x\<in>set (flushing ?w'). sound_queue ?w' (jqueue x)"
    proof
      fix x assume "x \<in> set (flushing ?w')"
      then have x: "x \<in> set xs \<union> set ys" by (simp add: 2(2))
      with rest a(2) have "sound_queue w (jqueue x)" by auto
      moreover from x sj have "separate (jqueue x) (jqueue j)" by (auto dest: separate_sym)
      ultimately show "sound_queue ?w' (jqueue x)" by (rule keep)
    qed
    have s3: "\<forall>k1 k2 q1 q2. k1 \<noteq> k2 \<longrightarrow> queues ?w' k1 = Some q1 \<longrightarrow> queues ?w' k2 = Some q2 \<longrightarrow>
        separate q1 q2"
      using a(3) by (simp add: fq)
    have s4: "\<forall>key q. queues ?w' key = Some q \<longrightarrow> (\<forall>x\<in>set (flushing ?w'). separate q (jqueue x))"
      using a(4) rest by (auto simp: fq 2(2))
    have s5: "jobs_separate (flushing ?w')"
      using js by (simp add: 2(2))
    from s1 s2 s3 s4 s5 show ?thesis
      unfolding sound_def by blast
  qed
qed

lemma sound_start: "sound (start cfg files)"
  by (simp add: sound_def start_def flushing_def)

lemma step_sound: "step w w' \<Longrightarrow> sound w \<Longrightarrow> sound w'"
proof (induction rule: step.induct)
  case (configures w partial)
  have "sound (configure partial w) = sound w"
    by (rule sound_frame) (simp_all add: configure_def flushing_def)
  with configures show ?case by simp
next
  case (edits w files)
  have "sound (w\<lparr>disk := files\<rparr>) = sound w"
    by (rule sound_frame) (simp_all add: flushing_def)
  with edits show ?case by simp
next
  case (gets w t lang ctx)
  have "sound (snd (getCached t lang ctx w)) = sound w"
    by (rule sound_frame) (simp_all add: getCached_outside)
  with gets show ?case by simp
next
  case (sets w t translation lang ctx)
  have "sound (snd (setCached t translation lang ctx w)) = sound w"
    by (rule sound_frame) (simp_all add: setCached_outside)
  with sets show ?case by simp
next
  case (sets_batch w entries lang ctx)
  have "sound (snd (setCachedBatch entries lang ctx w)) = sound w"
    by (rule sound_frame) (simp_all add: setCachedBatch_outside)
  with sets_batch show ?case by simp
next
  case (gets_all w lang ctx)
  have "sound (snd (getAllCached lang ctx w)) = sound w"
    by (rule sound_frame) (simp_all add: getAllCached_outside)
  with gets_all show ?case by simp
next
  case (enqueues w t lang ctx)
  then show ?case by (simp add: sound_enqueue)
next
  case (fires w key)
  then show ?case by (simp add: sound_timer_fires)
next
  case (resumes w k gen fault)
  then show ?case by (simp add: sound_resume)
qed

lemma later_sound: "later w w' \<Longrightarrow> sound w \<Longrightarrow> sound w'"
  by (induction rule: later.induct) (auto intro: step_sound)

lemma reachable_sound: "reachable w \<Longrightarrow> sound w"
  using later_sound sound_start by (auto simp: reachable_def)

subsection \<open>Keys\<close>

lemma getQueueKey_inj:
  assumes "CHR '':'' \<notin> set lang1" and "CHR '':'' \<notin> set lang2"
    and "getQueueKey lang1 ctx1 = getQueueKey lang2 ctx2"
  shows "lang1 = lang2 \<and> ctx1 = ctx2"
proof -
  have t: "takeWhile (\<lambda>c. c \<noteq> CHR '':'') (l @ CHR '':'' # c) = l" if "CHR '':'' \<notin> set l" for l c
    using that by (induction l) auto
  from assms(3) have "takeWhile (\<lambda>c. c \<noteq> CHR '':'') (lang1 @ '':'' @ ctx1) =
      takeWhile (\<lambda>c. c \<noteq> CHR '':'') (lang2 @ '':'' @ ctx2)"
    by (simp add: getQueueKey_def)
  with assms(1,2) have "lang1 = lang2" by (simp add: t)
  with assms(3) show ?thesis by (simp add: getQueueKey_def)
qed

lemma flush_other_key:
  assumes "key \<noteq> getQueueKey lang ctx"
  shows "queues (flush lang ctx w) key = queues w key \<and> timers (flush lang ctx w) key = timers w key"
proof (cases "queues w (getQueueKey lang ctx)")
  case None
  then show ?thesis by (simp add: flush_nothing)
next
  case (Some q)
  show ?thesis
  proof (cases "q = []")
    case True
    with Some show ?thesis by (simp add: flush_nothing)
  next
    case False
    from flush_shape[OF Some False] assms show ?thesis by simp
  qed
qed

lemma enqueue_other_key:
  assumes "key \<noteq> getQueueKey lang ctx"
  shows "queues (snd (enqueue t lang ctx w)) key = queues w key \<and>
         timers (snd (enqueue t lang ctx w)) key = timers w key"
  using assms enqueue_shape[of t lang ctx w]
  by (elim conjE disjE) (simp_all add: flush_other_key)

text \<open>
  C5, as stated, fails. The partitions \<open>(./locales, fr, default)\<close> and
  \<open>(/srv/other, fr, default)\<close> differ in their storage root and have different cache keys,
  yet a request for \<open>Hello\<close> on the second joins the queue entry of the request on the
  first. And the languages \<open>zh:Hant\<close> and \<open>zh\<close> give the same queue key with the contexts
  \<open>ui\<close> and \<open>Hant:ui\<close>.
\<close>

theorem partitions_share_queue_counterexample:
  "getCacheKey ''fr'' ''default'' fresh \<noteq>
     getCacheKey ''fr'' ''default'' (relocated (snd (enqueue ''Hello'' ''fr'' ''default'' fresh))) \<and>
   queues (snd (enqueue ''Hello'' ''fr'' ''default''
            (relocated (snd (enqueue ''Hello'' ''fr'' ''default'' fresh))))) ''fr:default''
     = Some [\<lparr>qtext = ''Hello'', qresolve = [0, 1], qreject = [0]\<rparr>] \<and>
   getQueueKey ''zh:Hant'' ''ui'' = getQueueKey ''zh'' ''Hant:ui''"
  by (simp add: relocated_def configure_def enqueue_def getQueueKey_def getCacheKey_def getConfig_def
      fresh_def start_def defaults_def Let_def)

text \<open>
  C5, amended. Two partitions whose languages contain no colon and that differ in
  language or in context name have different queue keys, and a request on the one leaves
  the collecting queue and the timer of the other as they were.
\<close>

theorem partitions_have_separate_queues:
  assumes "CHR '':'' \<notin> set lang1" and "CHR '':'' \<notin> set lang2"
    and "lang1 \<noteq> lang2 \<or> ctx1 \<noteq> ctx2"
  shows "getQueueKey lang1 ctx1 \<noteq> getQueueKey lang2 ctx2 \<and>
         queues (snd (enqueue txt lang1 ctx1 w)) (getQueueKey lang2 ctx2)
           = queues w (getQueueKey lang2 ctx2) \<and>
         timers (snd (enqueue txt lang1 ctx1 w)) (getQueueKey lang2 ctx2)
           = timers w (getQueueKey lang2 ctx2)"
proof -
  from assms getQueueKey_inj[of lang1 lang2 ctx1 ctx2]
  have "getQueueKey lang1 ctx1 \<noteq> getQueueKey lang2 ctx2" by blast
  then show ?thesis
    using enqueue_other_key[of "getQueueKey lang2 ctx2" lang1 ctx1 "txt" w] by simp
qed

theorem partitions_have_separate_queues_witness:
  "getQueueKey ''fr'' ''marketing'' \<noteq> getQueueKey ''fr'' ''legal'' \<and>
   queues (snd (enqueue ''Sign in'' ''fr'' ''marketing''
                 (snd (enqueue ''Sign in'' ''fr'' ''legal'' fresh)))) (getQueueKey ''fr'' ''legal'')
     = Some [\<lparr>qtext = ''Sign in'', qresolve = [0], qreject = [0]\<rparr>] \<and>
   timers (snd (enqueue ''Sign in'' ''fr'' ''marketing''
                 (snd (enqueue ''Sign in'' ''fr'' ''legal'' fresh)))) (getQueueKey ''fr'' ''legal'')
     = Some (''fr'', ''legal'')"
proof -
  have a: "CHR '':'' \<notin> set ''fr''" by simp
  have b: "''fr'' \<noteq> ''fr'' \<or> ''marketing'' \<noteq> ''legal''" by simp
  have c: "queues (snd (enqueue ''Sign in'' ''fr'' ''legal'' fresh)) (getQueueKey ''fr'' ''legal'')
       = Some [\<lparr>qtext = ''Sign in'', qresolve = [0], qreject = [0]\<rparr>]"
      "timers (snd (enqueue ''Sign in'' ''fr'' ''legal'' fresh)) (getQueueKey ''fr'' ''legal'')
       = Some (''fr'', ''legal'')"
    by (simp_all add: enqueue_def getQueueKey_def getConfig_def fresh_def start_def defaults_def Let_def)
  from partitions_have_separate_queues[OF a a b, of "''Sign in''" "snd (enqueue ''Sign in'' ''fr'' ''legal'' fresh)"] c
  show ?thesis by simp
qed

subsection \<open>Distinct texts\<close>

lemma unique_fold:
  "distinct acc \<Longrightarrow>
     distinct (fold (\<lambda>x acc. if x \<in> set acc then acc else acc @ [x]) xs acc) \<and>
     set (fold (\<lambda>x acc. if x \<in> set acc then acc else acc @ [x]) xs acc) = set acc \<union> set xs"
  by (induction xs arbitrary: acc) auto

lemma distinct_unique: "distinct (unique xs)"
  using unique_fold[of "[]" xs] by (simp add: unique_def)

lemma set_unique: "set (unique xs) = set xs"
  using unique_fold[of "[]" xs] by (simp add: unique_def)

lemma count_list_distinct: "distinct xs \<Longrightarrow> x \<in> set xs \<Longrightarrow> count_list xs x = 1"
  by (induction xs) auto

lemma count_list_unique: "x \<in> set xs \<Longrightarrow> count_list (unique xs) x = 1"
  by (simp add: count_list_distinct distinct_unique set_unique)

subsection \<open>A request that does not flush, and one that does\<close>

lemma enqueue_no_flush:
  assumes "find (\<lambda>i. qtext i = t) (collecting w (getQueueKey lang ctx)) \<noteq> None \<or>
           int (length (collecting w (getQueueKey lang ctx))) + 1 < batchSize (config w)"
  shows "fst (enqueue t lang ctx w) = next_promise w"
    and "queues (snd (enqueue t lang ctx w)) (getQueueKey lang ctx) =
           Some (joined t (next_promise w) (collecting w (getQueueKey lang ctx)))"
    and "next_promise (snd (enqueue t lang ctx w)) = Suc (next_promise w)"
    and "promises (snd (enqueue t lang ctx w)) = (promises w)(next_promise w := None)"
    and "tasks (snd (enqueue t lang ctx w)) = tasks w"
    and "config (snd (enqueue t lang ctx w)) = config w"
    and "trace (snd (enqueue t lang ctx w)) = trace w"
  using assms
  by (auto simp: enqueue_def collecting_def joined_def getConfig_def Let_def split: option.splits)

lemma enqueue_flushes:
  assumes "find (\<lambda>item. qtext item = t) (collecting w (getQueueKey lang ctx)) = None"
    and "batchSize (config w) \<le> int (length (collecting w (getQueueKey lang ctx))) + 1"
  shows "snd (enqueue t lang ctx w) =
           flush lang ctx
             (w\<lparr>next_promise := Suc (next_promise w),
                promises := (promises w)(next_promise w := None),
                queues := (queues w)(getQueueKey lang ctx \<mapsto>
                  collecting w (getQueueKey lang ctx) @
                    [\<lparr>qtext = t, qresolve = [next_promise w], qreject = [next_promise w]\<rparr>]),
                timers := (timers w)(getQueueKey lang ctx := None)\<rparr>)"
  using assms
  by (auto simp: enqueue_def collecting_def getConfig_def Let_def split: option.splits)

text \<open>
  C8. A request for a text that is not yet queued, arriving when the queue holds one text
  less than the size threshold (or more): the timer of the key is deleted, the queue is
  detached at once, the queued items with the new one at the end becoming a batch in
  flight, and the next request on the key finds no queue: it starts a queue of its own,
  under a new timer (or, with a threshold of one or less, is detached at once as a batch
  of its own).
\<close>

theorem size_threshold_flushes_at_once:
  assumes "find (\<lambda>item. qtext item = txt) (collecting w (getQueueKey lang ctx)) = None"
    and "batchSize (config w) \<le> int (length (collecting w (getQueueKey lang ctx))) + 1"
  shows "timers (snd (enqueue txt lang ctx w)) (getQueueKey lang ctx) = None \<and>
         queues (snd (enqueue txt lang ctx w)) (getQueueKey lang ctx) = None \<and>
         flushing (snd (enqueue txt lang ctx w)) =
           flushing w @
             [\<lparr>jlang = lang, jctx = ctx,
               jqueue = collecting w (getQueueKey lang ctx) @
                          [\<lparr>qtext = txt, qresolve = [next_promise w], qreject = [next_promise w]\<rparr>],
               juniqueTexts = unique (map qtext (collecting w (getQueueKey lang ctx)) @ [txt]),
               jconfig = config w\<rparr>] \<and>
         (if batchSize (config w) \<le> 1
          then queues (snd (enqueue txt2 lang ctx (snd (enqueue txt lang ctx w)))) (getQueueKey lang ctx) = None \<and>
               flushing (snd (enqueue txt2 lang ctx (snd (enqueue txt lang ctx w)))) =
                 flushing (snd (enqueue txt lang ctx w)) @
                   [\<lparr>jlang = lang, jctx = ctx,
                     jqueue = [\<lparr>qtext = txt2, qresolve = [Suc (next_promise w)],
                                qreject = [Suc (next_promise w)]\<rparr>],
                     juniqueTexts = [txt2], jconfig = config w\<rparr>]
          else queues (snd (enqueue txt2 lang ctx (snd (enqueue txt lang ctx w)))) (getQueueKey lang ctx) =
                 Some [\<lparr>qtext = txt2, qresolve = [Suc (next_promise w)],
                        qreject = [Suc (next_promise w)]\<rparr>] \<and>
               timers (snd (enqueue txt2 lang ctx (snd (enqueue txt lang ctx w)))) (getQueueKey lang ctx) =
                 Some (lang, ctx) \<and>
               flushing (snd (enqueue txt2 lang ctx (snd (enqueue txt lang ctx w)))) =
                 flushing (snd (enqueue txt lang ctx w)))"
proof -
  let ?key = "getQueueKey lang ctx"
  let ?p = "next_promise w"
  let ?q = "collecting w ?key @ [\<lparr>qtext = txt, qresolve = [?p], qreject = [?p]\<rparr>]"
  let ?j = "\<lparr>jlang = lang, jctx = ctx, jqueue = ?q,
             juniqueTexts = unique (map qtext (collecting w ?key) @ [txt]), jconfig = config w\<rparr>"
  let ?wq = "w\<lparr>next_promise := Suc ?p, promises := (promises w)(?p := None),
                queues := (queues w)(?key \<mapsto> ?q), timers := (timers w)(?key := None)\<rparr>"
  define w' where "w' = snd (enqueue txt lang ctx w)"
  have e: "w' = flush lang ctx ?wq"
    unfolding w'_def using assms by (rule enqueue_flushes)
  have q: "queues ?wq ?key = Some ?q" "?q \<noteq> []" by simp_all
  from flush_shape[OF q]
  have first: "timers w' ?key = None" "queues w' ?key = None" "flushing w' = flushing w @ [?j]"
    "next_promise w' = Suc ?p" "config w' = config w"
    by (simp_all add: e flushing_def)
  have c': "collecting w' ?key = []"
    using first(2) by (simp add: collecting_def)
  have second:
    "if batchSize (config w) \<le> 1
     then queues (snd (enqueue txt2 lang ctx w')) ?key = None \<and>
          flushing (snd (enqueue txt2 lang ctx w')) =
            flushing w' @
              [\<lparr>jlang = lang, jctx = ctx,
                jqueue = [\<lparr>qtext = txt2, qresolve = [Suc ?p], qreject = [Suc ?p]\<rparr>],
                juniqueTexts = [txt2], jconfig = config w\<rparr>]
     else queues (snd (enqueue txt2 lang ctx w')) ?key =
            Some [\<lparr>qtext = txt2, qresolve = [Suc ?p], qreject = [Suc ?p]\<rparr>] \<and>
          timers (snd (enqueue txt2 lang ctx w')) ?key = Some (lang, ctx) \<and>
          flushing (snd (enqueue txt2 lang ctx w')) = flushing w'"
  proof (cases "batchSize (config w) \<le> 1")
    case True
    let ?q2 = "[\<lparr>qtext = txt2, qresolve = [Suc ?p], qreject = [Suc ?p]\<rparr>]"
    let ?w2 = "w'\<lparr>next_promise := Suc (Suc ?p), promises := (promises w')(Suc ?p := None),
                  queues := (queues w')(?key \<mapsto> ?q2), timers := (timers w')(?key := None)\<rparr>"
    have "snd (enqueue txt2 lang ctx w') = flush lang ctx ?w2"
      using enqueue_flushes[of txt2 w' lang ctx] True first c' by simp
    moreover have "queues ?w2 ?key = Some ?q2" "?q2 \<noteq> []" by simp_all
    note flush_shape[OF this]
    ultimately show ?thesis
      using True first by (simp add: flushing_def unique_def)
  next
    case False
    have nf: "find (\<lambda>i. qtext i = txt2) (collecting w' ?key) \<noteq> None \<or>
        int (length (collecting w' ?key)) + 1 < batchSize (config w')"
      using False first c' by simp
    note n = enqueue_no_flush[OF nf]
    have t: "timers (snd (enqueue txt2 lang ctx w')) ?key = Some (lang, ctx)"
      using False first c'
      by (simp add: enqueue_def collecting_def getConfig_def Let_def)
    from n t False first c' show ?thesis
      by (simp add: joined_def flushing_def)
  qed
  from first second show ?thesis
    unfolding w'_def by simp
qed

subsection \<open>Sample runs\<close>

lemma default_path:
  "path_join [''./locales'', ''fr'', ''default.json''] = ''locales/fr/default.json''"
  by (simp add: path_join_def path_normalize_def segments_def Let_def)

lemmas cache_defs = spawn_def return_def
  getCached_def getCached_call_def getCached_loadCache_def
  getAllCached_def getAllCached_call_def getAllCached_loadCache_def
  setCached_def setCachedBatch_def put_call_def withLock_def put_critical_def put_loadCache_def
  saveCache_def saveCache_mkdir_def saveCache_writeFile_def saveCache_rename_def
  withLock_finally_def loadCache_def loadCache_readFile_def resume_def finish_def alone_def
  getCacheKey_def getCachePath_def default_path getConfig_def
  fresh_def corrupted_def start_def defaults_def Let_def
  js_set_def js_get_def js_or_def Object_assign_def
  add_property_def array_index_def is_digit_def object_prototype_names_def

lemmas run_defs = enqueue_def enqueue_many.simps flush_def timer_fires_def
  flush_getAllCached_def flush_translate_def flush_setCachedBatch_def
  getQueueKey_def unique_def call_def settle_def
  selectExamples_def Object_entries_def cache_defs

theorem size_threshold_flushes_at_once_witness:
  "timers two_queued ''fr:default'' = Some (''fr'', ''default'') \<and>
   timers (snd (enqueue ''Three'' ''fr'' ''default'' two_queued)) ''fr:default'' = None \<and>
   queues (snd (enqueue ''Three'' ''fr'' ''default'' two_queued)) ''fr:default'' = None \<and>
   map jqueue (flushing (snd (enqueue ''Three'' ''fr'' ''default'' two_queued))) =
     [[\<lparr>qtext = ''One'', qresolve = [0], qreject = [0]\<rparr>,
       \<lparr>qtext = ''Two'', qresolve = [1], qreject = [1]\<rparr>,
       \<lparr>qtext = ''Three'', qresolve = [2], qreject = [2]\<rparr>]] \<and>
   queues (snd (enqueue ''Four'' ''fr'' ''default''
            (snd (enqueue ''Three'' ''fr'' ''default'' two_queued)))) ''fr:default'' =
     Some [\<lparr>qtext = ''Four'', qresolve = [3], qreject = [3]\<rparr>]"
proof -
  have e: "timers two_queued ''fr:default'' = Some (''fr'', ''default'')"
    "collecting two_queued ''fr:default'' =
       [\<lparr>qtext = ''One'', qresolve = [0], qreject = [0]\<rparr>,
        \<lparr>qtext = ''Two'', qresolve = [1], qreject = [1]\<rparr>]"
    "batchSize (config two_queued) = 3" "next_promise two_queued = 2" "flushing two_queued = []"
    by (simp_all add: two_queued_def collecting_def configure_def flushing_def run_defs)
  have k: "getQueueKey ''fr'' ''default'' = ''fr:default''"
    by (simp add: getQueueKey_def)
  have a: "find (\<lambda>item. qtext item = ''Three'') (collecting two_queued (getQueueKey ''fr'' ''default'')) = None"
    by (simp add: k e)
  have b: "batchSize (config two_queued) \<le> int (length (collecting two_queued (getQueueKey ''fr'' ''default''))) + 1"
    by (simp add: k e)
  from size_threshold_flushes_at_once[OF a b, of "''Four''"] e(1)
  show ?thesis
    by (simp add: k e)
qed

subsection \<open>A promise that nothing holds\<close>

text \<open>
  Only the closures stored in a queue or in a batch in flight settle promises, and
  \<open>enqueue\<close> stores closures for the promise it returns and for promises that are already
  held. So a promise that nothing holds keeps its state in every later state.
\<close>

lemma holds_frame:
  "queues w' = queues w \<Longrightarrow> flushing w' = flushing w \<Longrightarrow> holds w' p = holds w p"
  by (simp add: holds_def)

lemma holds_flush: "holds (flush lang ctx w) p = holds w p"
proof (cases "queues w (getQueueKey lang ctx)")
  case None
  then show ?thesis by (simp add: flush_nothing)
next
  case (Some q)
  show ?thesis
  proof (cases "q = []")
    case True
    with Some show ?thesis by (simp add: flush_nothing)
  next
    case False
    let ?key = "getQueueKey lang ctx"
    let ?J = "\<lparr>jlang = lang, jctx = ctx, jqueue = q, juniqueTexts = unique (map qtext q),
               jconfig = config w\<rparr>"
    have eq: "queues (flush lang ctx w) = (queues w)(?key := None)"
      "flushing (flush lang ctx w) = flushing w @ [?J]"
      using flush_shape[OF Some False] by simp_all
    show ?thesis
    proof
      assume "holds (flush lang ctx w) p"
      then consider key x where "((queues w)(?key := None)) key = Some x" "\<exists>i\<in>set x. p \<in> waiters i"
        | j where "j \<in> set (flushing w @ [?J])" "\<exists>i\<in>set (jqueue j). p \<in> waiters i"
        unfolding holds_def eq by blast
      then show "holds w p"
      proof cases
        case 1
        then have "queues w key = Some x" by (simp split: if_splits)
        with 1(2) show ?thesis unfolding holds_def by blast
      next
        case 2
        show ?thesis
        proof (cases "j = ?J")
          case True
          with 2(2) have "\<exists>i\<in>set q. p \<in> waiters i" by simp
          with Some show ?thesis unfolding holds_def by blast
        next
          case False
          with 2(1) have "j \<in> set (flushing w)" by simp
          with 2(2) show ?thesis unfolding holds_def by blast
        qed
      qed
    next
      assume "holds w p"
      then consider key x where "queues w key = Some x" "\<exists>i\<in>set x. p \<in> waiters i"
        | j where "j \<in> set (flushing w)" "\<exists>i\<in>set (jqueue j). p \<in> waiters i"
        unfolding holds_def by blast
      then show "holds (flush lang ctx w) p"
      proof cases
        case 1
        show ?thesis
        proof (cases "key = ?key")
          case True
          with 1 Some have "\<exists>i\<in>set (jqueue ?J). p \<in> waiters i" by simp
          moreover have "?J \<in> set (flushing (flush lang ctx w))" by (simp add: eq)
          ultimately show ?thesis unfolding holds_def by blast
        next
          case False
          with 1(1) have "queues (flush lang ctx w) key = Some x" by (simp add: eq)
          with 1(2) show ?thesis unfolding holds_def by blast
        qed
      next
        case 2
        then have "j \<in> set (flushing (flush lang ctx w))" by (simp add: eq)
        with 2(2) show ?thesis unfolding holds_def by blast
      qed
    qed
  qed
qed

lemma flush_promises:
  "promises (flush lang ctx w) = promises w \<and> next_promise (flush lang ctx w) = next_promise w"
proof (cases "queues w (getQueueKey lang ctx)")
  case None
  then show ?thesis by (simp add: flush_nothing)
next
  case (Some q)
  show ?thesis
  proof (cases "q = []")
    case True
    with Some show ?thesis by (simp add: flush_nothing)
  next
    case False
    from flush_shape[OF Some False] show ?thesis by simp
  qed
qed

lemma not_holds_enqueue:
  assumes "\<not> holds w p" and "p < next_promise w"
  shows "\<not> holds (snd (enqueue t lang ctx w)) p"
proof -
  let ?key = "getQueueKey lang ctx"
  let ?wb = "w\<lparr>next_promise := Suc (next_promise w),
                promises := (promises w)(next_promise w := None),
                queues := (queues w)(?key \<mapsto> joined t (next_promise w) (collecting w ?key))\<rparr>"
  have c: "\<forall>i\<in>set (collecting w ?key). p \<notin> waiters i"
  proof (cases "queues w ?key")
    case None
    then show ?thesis by (simp add: collecting_def)
  next
    case (Some q)
    with assms(1) have "\<forall>i\<in>set q. p \<notin> waiters i"
      unfolding holds_def by blast
    with Some show ?thesis by (simp add: collecting_def)
  qed
  have "\<forall>i\<in>set (joined t (next_promise w) (collecting w ?key)). p \<notin> waiters i"
  proof
    fix i assume "i \<in> set (joined t (next_promise w) (collecting w ?key))"
    from joined_waiters[OF this] c assms(2) show "p \<notin> waiters i" by auto
  qed
  with assms(1) have b: "\<not> holds ?wb p"
    by (auto simp: holds_def flushing_def split: if_splits)
  have t: "holds (?wb\<lparr>timers := T\<rparr>) p = holds ?wb p" for T
    by (rule holds_frame) (simp_all add: flushing_def)
  from enqueue_shape[of t lang ctx w] b t holds_flush show ?thesis
    by (elim conjE disjE) simp_all
qed

lemma enqueue_promises:
  "promises (snd (enqueue t lang ctx w)) = (promises w)(next_promise w := None) \<and>
   next_promise (snd (enqueue t lang ctx w)) = Suc (next_promise w)"
  using enqueue_shape[of t lang ctx w]
  by (elim conjE disjE) (simp_all add: flush_promises)

lemma not_holds_resume:
  assumes "\<not> holds w p"
  shows "\<not> holds (resume k gen fault w) p \<and> promises (resume k gen fault w) p = promises w p \<and>
         next_promise (resume k gen fault w) = next_promise w"
proof (cases "k < length (tasks w)")
  case False
  with assms show ?thesis by (simp add: resume_beyond)
next
  case True
  let ?w' = "resume k gen fault w"
  note r = resume_cases[OF True, of gen fault]
  then have fq: "queues ?w' = queues w" "next_promise ?w' = next_promise w" by simp_all
  from r consider "flushing ?w' = flushing w" "promises ?w' = promises w"
    | j xs ys where "flushing w = xs @ j # ys" "flushing ?w' = xs @ ys"
        "\<forall>p. (\<forall>i\<in>set (jqueue j). p \<notin> waiters i) \<longrightarrow> promises ?w' p = promises w p"
    by blast
  then show ?thesis
  proof cases
    case 1
    with fq assms holds_frame[of ?w' w p] show ?thesis by simp
  next
    case 2
    from 2(1) have "j \<in> set (flushing w)" by simp
    with assms have free: "\<forall>i\<in>set (jqueue j). p \<notin> waiters i"
      unfolding holds_def by blast
    with 2(3) have a: "promises ?w' p = promises w p" by blast
    have "\<not> holds ?w' p"
    proof
      assume "holds ?w' p"
      then consider key x where "queues w key = Some x" "\<exists>i\<in>set x. p \<in> waiters i"
        | j' where "j' \<in> set (xs @ ys)" "\<exists>i\<in>set (jqueue j'). p \<in> waiters i"
        unfolding holds_def fq 2(2) by blast
      then show False
      proof cases
        case 1
        with assms show False unfolding holds_def by blast
      next
        case 2
        with \<open>flushing w = xs @ j # ys\<close> have "j' \<in> set (flushing w)" by auto
        with 2(2) assms show False unfolding holds_def by blast
      qed
    qed
    with a fq show ?thesis by blast
  qed
qed

lemma orphan_step:
  assumes "step w w'" and "\<not> holds w p" and "p < next_promise w"
  shows "\<not> holds w' p \<and> p < next_promise w' \<and> promises w' p = promises w p"
  using assms
proof (induction rule: step.induct)
  case (configures w partial)
  have "holds (configure partial w) p = holds w p"
    by (rule holds_frame) (simp_all add: configure_def flushing_def)
  with configures show ?case by (simp add: configure_def)
next
  case (edits w files)
  have "holds (w\<lparr>disk := files\<rparr>) p = holds w p"
    by (rule holds_frame) (simp_all add: flushing_def)
  with edits show ?case by simp
next
  case (gets w t lang ctx)
  note f = getCached_outside[of t lang ctx w]
  have "holds (snd (getCached t lang ctx w)) p = holds w p"
    by (rule holds_frame) (simp_all add: f)
  with gets f show ?case by simp
next
  case (sets w t translation lang ctx)
  note f = setCached_outside[of t translation lang ctx w]
  have "holds (snd (setCached t translation lang ctx w)) p = holds w p"
    by (rule holds_frame) (simp_all add: f)
  with sets f show ?case by simp
next
  case (sets_batch w entries lang ctx)
  note f = setCachedBatch_outside[of entries lang ctx w]
  have "holds (snd (setCachedBatch entries lang ctx w)) p = holds w p"
    by (rule holds_frame) (simp_all add: f)
  with sets_batch f show ?case by simp
next
  case (gets_all w lang ctx)
  note f = getAllCached_outside[of lang ctx w]
  have "holds (snd (getAllCached lang ctx w)) p = holds w p"
    by (rule holds_frame) (simp_all add: f)
  with gets_all f show ?case by simp
next
  case (enqueues w t lang ctx)
  let ?w'' = "snd (enqueue t lang ctx w)"
  from not_holds_enqueue[OF enqueues(1,2)] have 1: "\<not> holds ?w'' p" .
  from enqueue_promises[of t lang ctx w] have 2: "next_promise ?w'' = Suc (next_promise w)"
    and 3: "promises ?w'' p = ((promises w)(next_promise w := None)) p" by simp_all
  from enqueues(2) 3 have "promises ?w'' p = promises w p" by simp
  with 1 2 enqueues show ?case by simp
next
  case (fires w key)
  show ?case
  proof (cases "timers w key")
    case None
    with fires show ?thesis by (simp add: timer_fires_def)
  next
    case (Some lc)
    obtain l c where lc: "lc = (l, c)" by (cases lc)
    let ?wt = "w\<lparr>timers := (timers w)(key := None)\<rparr>"
    have t: "holds ?wt p = holds w p"
      by (rule holds_frame) (simp_all add: flushing_def)
    have eq: "timer_fires key w = flush l c ?wt"
      using Some lc by (simp add: timer_fires_def)
    from fires t show ?thesis
      unfolding eq by (simp add: holds_flush flush_promises)
  qed
next
  case (resumes w k gen fault)
  from not_holds_resume[OF resumes(1), of k gen fault] resumes show ?case by simp
qed

text \<open>
  A promise that exists and that no closure holds keeps its state for ever: if it is
  pending, it stays pending whatever happens later.
\<close>

lemma orphan_for_ever:
  assumes "later w w'" and "\<not> holds w p" and "p < next_promise w"
  shows "\<not> holds w' p \<and> p < next_promise w' \<and> promises w' p = promises w p"
  using assms
proof (induction rule: later.induct)
  case (now w)
  then show ?case by simp
next
  case (after w w' w'')
  then have h: "\<not> holds w' p" "p < next_promise w'" "promises w' p = promises w p"
    by simp_all
  from orphan_step[OF after(2) h(1,2)] h(3) show ?case by simp
qed

text \<open>Steps that lead to later states.\<close>

lemma later_configure: "later w w' \<Longrightarrow> later w (configure partial w')"
  by (erule later.after) (rule step.configures)

lemma later_edit: "later w w' \<Longrightarrow> later w (w'\<lparr>disk := files\<rparr>)"
  by (erule later.after) (rule step.edits)

lemma later_getCached: "later w w' \<Longrightarrow> later w (snd (getCached t lang ctx w'))"
  by (erule later.after) (rule step.gets)

lemma later_setCached: "later w w' \<Longrightarrow> later w (snd (setCached t v lang ctx w'))"
  by (erule later.after) (rule step.sets)

lemma later_setCachedBatch: "later w w' \<Longrightarrow> later w (snd (setCachedBatch entries lang ctx w'))"
  by (erule later.after) (rule step.sets_batch)

lemma later_getAllCached: "later w w' \<Longrightarrow> later w (snd (getAllCached lang ctx w'))"
  by (erule later.after) (rule step.gets_all)

lemma later_enqueue: "later w w' \<Longrightarrow> later w (snd (enqueue t lang ctx w'))"
  by (erule later.after) (rule step.enqueues)

lemma later_timer_fires: "later w w' \<Longrightarrow> later w (timer_fires key w')"
  by (erule later.after) (rule step.fires)

lemma later_resume: "later w w' \<Longrightarrow> later w (resume k gen fault w')"
  by (erule later.after) (rule step.resumes)

lemma later_finish: "later w w' \<Longrightarrow> later w (finish k gen fault w')"
  unfolding finish_def by (intro later_resume)

lemmas later_intros = later.now later_configure later_edit later_getCached later_setCached
  later_setCachedBatch later_getAllCached later_enqueue later_timer_fires later_resume
  later_finish

lemma two_callers_eval:
  "fst (enqueue_many 2 ''Hello'' ''fr'' ''default'' fresh) = [0, 1]"
  "tasks two_callers =
     [GetAllCached_readFile ''./locales:fr:default'' ''locales/fr/default.json''
       (Some \<lparr>jlang = ''fr'', jctx = ''default'',
         jqueue = [\<lparr>qtext = ''Hello'', qresolve = [0, 1], qreject = [0]\<rparr>],
         juniqueTexts = [''Hello''], jconfig = defaults\<rparr>)]"
  by (simp_all add: two_callers_def run_defs numeral_2_eq_2)

text \<open>
  C1. Two callers request the same text, the timer fires, the cache file is read, and the
  generator fails. The first caller's promise is rejected with the generator's error; the
  second caller, who piggybacked, is never told: no closure that could settle the promise
  is left anywhere, so it is pending in every state the process can reach from there,
  whatever is called next.
\<close>

theorem piggybacked_caller_never_rejected:
  "fst (enqueue_many 2 ''Hello'' ''fr'' ''default'' fresh) = [0, 1] \<and>
   promises (resume 0 failing None (resume 0 failing None two_callers)) 0 =
     Some (Rejected (GeneratorFailed ''fetch failed'')) \<and>
   (\<forall>w'. later (resume 0 failing None (resume 0 failing None two_callers)) w' \<longrightarrow>
      promises w' 1 = None)"
proof -
  let ?w = "resume 0 failing None (resume 0 failing None two_callers)"
  have a: "fst (enqueue_many 2 ''Hello'' ''fr'' ''default'' fresh) = [0, 1]"
    by (simp add: run_defs numeral_2_eq_2)
  have b: "promises ?w 0 = Some (Rejected (GeneratorFailed ''fetch failed''))"
    by (simp add: two_callers_def run_defs numeral_2_eq_2 failing_def)
  have c: "promises ?w 1 = None"
    by (simp add: two_callers_def run_defs numeral_2_eq_2 failing_def)
  have d: "\<not> holds ?w 1"
    by (simp add: holds_def flushing_def two_callers_def run_defs numeral_2_eq_2 failing_def)
  have e: "1 < next_promise ?w"
    by (simp add: two_callers_def run_defs numeral_2_eq_2 failing_def)
  have "promises w' 1 = None" if "later ?w w'" for w'
    using orphan_for_ever [OF that d e] c by simp
  with a b show ?thesis
    by blast
qed

text \<open>
  For instance, after the same text is requested again and translated with success, the
  second caller of the failed batch is still waiting.
\<close>

theorem piggybacked_caller_never_rejected_witness:
  "promises (finish 1 mock None
     (timer_fires ''fr:default''
       (snd (enqueue ''Hello'' ''fr'' ''default''
         (resume 0 failing None (resume 0 failing None two_callers)))))) 1 = None"
proof -
  let ?w = "resume 0 failing None (resume 0 failing None two_callers)"
  have "later ?w (finish 1 mock None
     (timer_fires ''fr:default'' (snd (enqueue ''Hello'' ''fr'' ''default'' ?w))))"
    by (intro later_intros)
  then show ?thesis
    using piggybacked_caller_never_rejected by blast
qed

subsection \<open>cache.ts\<close>



lemma finish_Finished:
  "k < length (tasks w) \<Longrightarrow> tasks w ! k = Finished \<Longrightarrow> finish k gen fault w = w"
  by (simp add: finish_def resume_Finished)

text \<open>
  A call of \<open>setCached\<close> or \<open>setCachedBatch\<close> from outside that is suspended at \<open>fs.mkdir\<close>
  and then runs alone to its end: three resumptions.
\<close>

lemma put_saves:
  fixes gen :: generator and fault :: "fs_fault option"
  assumes "k < length (tasks W)" and "tasks W ! k = Put_mkdir P path a" and "pcaller P = Outside"
  defines "W' \<equiv> resume k gen fault (resume k gen fault (resume k gen fault W))"
  shows "tasks W' = (tasks W)[k := Finished] \<and> memCache W' = memCache W \<and> heap W' = heap W \<and>
         config W' = config W \<and> locks W' = locks W - {plock P} \<and>
         (\<forall>f. fault = Some f \<longrightarrow>
            replies W' = (replies W)(k \<mapsto> Thrown (IOFailed (fault_message f))) \<and>
            disk W' path = disk W path \<and> trace W' = trace W) \<and>
         (fault = None \<longrightarrow>
            replies W' = (replies W)(k \<mapsto> Completed) \<and>
            disk W' = ((disk W)(path @ ''.tmp'' := None))(path \<mapsto> Json (heap W a)) \<and>
            trace W' = trace W @ [Saved path (Json (heap W a))])"
proof (cases fault)
  case None
  with assms(1-3) show ?thesis
    unfolding W'_def
    by (simp add: resume_def saveCache_mkdir_def saveCache_writeFile_def saveCache_rename_def
        withLock_finally_def return_def Let_def)
next
  case (Some f)
  with assms(1-3) show ?thesis
    unfolding W'_def
    by (cases f)
       (simp_all add: resume_def saveCache_mkdir_def saveCache_writeFile_def saveCache_rename_def
        withLock_finally_def return_def Let_def fault_message_def)
qed


lemmas put_defs = spawn_def put_call_def withLock_def put_critical_def put_loadCache_def
  saveCache_def loadCache_def loadCache_readFile_def getCacheKey_def getCachePath_def
  getConfig_def Let_def return_def withLock_finally_def

text \<open>
  A call of \<open>setCached\<close> or \<open>setCachedBatch\<close> from outside that finds the lock free and a
  partition that loads, up to \<open>fs.mkdir\<close>: at once when the partition is in memory, after
  one resumption when the file is read.
\<close>

lemma put_begins:
  fixes gen :: generator and fault :: "fs_fault option" and u :: upsert
  assumes "getCachePath lang ctx w \<notin> locks w" and "stored lang ctx w = Some cache"
  defines "k \<equiv> length (tasks w)"
  defines "S \<equiv> snd (spawn (put_call u lang ctx Outside) w)"
  shows "\<exists>W P a. (W = S \<or> W = resume k gen fault S) \<and>
           tasks W = tasks w @ [Put_mkdir P (getCachePath lang ctx w) a] \<and>
           pcaller P = Outside \<and> plock P = getCachePath lang ctx w \<and>
           memCache W (getCacheKey lang ctx w) = Some a \<and> heap W a = apply_upsert u cache \<and>
           disk W = disk w \<and> config W = config w \<and> replies W k = None \<and>
           locks W = insert (getCachePath lang ctx w) (locks w) \<and> trace W = trace w"
proof (cases "memCache w (getCacheKey lang ctx w)")
  case (Some a)
  with assms(2) have c: "cache = heap w a"
    by (simp add: stored_def loadCache_def Let_def)
  let ?P = "\<lparr>pkey = getCacheKey lang ctx w, plock = getCachePath lang ctx w, plang = lang,
            pctx = ctx, pupsert = u, pcaller = Outside\<rparr>"
  have "tasks S = tasks w @ [Put_mkdir ?P (getCachePath lang ctx w) a] \<and>
        memCache S (getCacheKey lang ctx w) = Some a \<and> heap S a = apply_upsert u cache \<and>
        disk S = disk w \<and> config S = config w \<and> replies S k = None \<and>
        locks S = insert (getCachePath lang ctx w) (locks w) \<and> trace S = trace w"
    unfolding S_def k_def using Some assms(1) c by (simp add: put_defs)
  then show ?thesis by (intro exI[of _ S] exI[of _ ?P] exI[of _ a]) simp
next
  case None
  let ?P = "\<lparr>pkey = getCacheKey lang ctx w, plock = getCachePath lang ctx w, plang = lang,
            pctx = ctx, pupsert = u, pcaller = Outside\<rparr>"
  let ?a = "next_object w"
  have S: "tasks S = tasks w @ [Put_readFile ?P (getCacheKey lang ctx w) (getCachePath lang ctx w)]"
    "memCache S = memCache w" "heap S = heap w" "next_object S = next_object w"
    "disk S = disk w" "config S = config w" "replies S k = None"
    "locks S = insert (getCachePath lang ctx w) (locks w)" "trace S = trace w"
    unfolding S_def k_def using None assms(1) by (simp_all add: put_defs)
  from assms(2) None have d: "disk w (getCachePath lang ctx w) = None \<and> cache = [] \<or>
      disk w (getCachePath lang ctx w) = Some (Json cache)"
    by (auto simp: stored_def loadCache_def Let_def split: option.splits cache_file.splits)
  let ?W = "resume k gen fault S"
  have k: "k < length (tasks S)"
    and tk: "tasks S ! k = Put_readFile ?P (getCacheKey lang ctx w) (getCachePath lang ctx w)"
    by (simp_all add: S(1) k_def)
  have "tasks ?W = tasks w @ [Put_mkdir ?P (getCachePath lang ctx w) ?a] \<and>
        memCache ?W (getCacheKey lang ctx w) = Some ?a \<and> heap ?W ?a = apply_upsert u cache \<and>
        disk ?W = disk w \<and> config ?W = config w \<and> replies ?W k = None \<and>
        locks ?W = insert (getCachePath lang ctx w) (locks w) \<and> trace ?W = trace w"
    using d
  proof
    assume "disk w (getCachePath lang ctx w) = None \<and> cache = []"
    then show ?thesis
      using k tk S
      by (simp add: resume_def put_loadCache_def saveCache_def loadCache_readFile_def Let_def
          getCachePath_def getConfig_def)
         (simp add: k_def)
  next
    assume "disk w (getCachePath lang ctx w) = Some (Json cache)"
    then show ?thesis
      using k tk S
      by (simp add: resume_def put_loadCache_def saveCache_def loadCache_readFile_def Let_def
          getCachePath_def getConfig_def)
         (simp add: k_def)
  qed
  then show ?thesis by (intro exI[of _ ?W] exI[of _ ?P] exI[of _ ?a]) simp
qed

text \<open>Such a call, running alone to its end.\<close>

lemma put_alone:
  fixes gen :: generator and fault :: "fs_fault option" and u :: upsert
  assumes "getCachePath lang ctx w \<notin> locks w" and "stored lang ctx w = Some cache"
  defines "F \<equiv> finish (length (tasks w)) gen fault (snd (spawn (put_call u lang ctx Outside) w))"
  shows "\<exists>a. memCache F (getCacheKey lang ctx w) = Some a \<and> heap F a = apply_upsert u cache \<and>
           config F = config w \<and> locks F = locks w \<and> tasks F = tasks w @ [Finished] \<and>
           (\<forall>f. fault = Some f \<longrightarrow>
              replies F (length (tasks w)) = Some (Thrown (IOFailed (fault_message f))) \<and>
              disk F (getCachePath lang ctx w) = disk w (getCachePath lang ctx w) \<and>
              trace F = trace w) \<and>
           (fault = None \<longrightarrow>
              replies F (length (tasks w)) = Some Completed \<and>
              disk F (getCachePath lang ctx w) = Some (Json (apply_upsert u cache)) \<and>
              trace F = trace w @
                [Saved (getCachePath lang ctx w) (Json (apply_upsert u cache))])"
proof -
  let ?k = "length (tasks w)"
  let ?S = "snd (spawn (put_call u lang ctx Outside) w)"
  let ?L = "getCachePath lang ctx w"
  from put_begins[OF assms(1,2), of u gen fault] obtain W P a where
    W: "W = ?S \<or> W = resume ?k gen fault ?S"
    and t: "tasks W = tasks w @ [Put_mkdir P ?L a]"
    and P: "pcaller P = Outside" "plock P = ?L"
    and m: "memCache W (getCacheKey lang ctx w) = Some a" "heap W a = apply_upsert u cache"
    and f: "disk W = disk w" "config W = config w" "replies W ?k = None"
      "locks W = insert ?L (locks w)" "trace W = trace w"
    by blast
  let ?W' = "resume ?k gen fault (resume ?k gen fault (resume ?k gen fault W))"
  from t have k: "?k < length (tasks W)" and tk: "tasks W ! ?k = Put_mkdir P ?L a" by simp_all
  note s = put_saves[OF k tk P(1), of gen fault]
  from s t have fin: "?k < length (tasks ?W')" "tasks ?W' ! ?k = Finished" by simp_all
  have r: "resume ?k gen fault ?W' = ?W'" by (rule resume_Finished[OF fin])
  have r2: "resume ?k gen fault (resume ?k gen fault ?W') = ?W'" by (simp only: r)
  have r3: "resume ?k gen fault (resume ?k gen fault (resume ?k gen fault ?W')) = ?W'"
    by (simp only: r)
  from W have "F = ?W'"
  proof
    assume "W = ?S"
    with r3 show ?thesis unfolding F_def finish_def by simp
  next
    assume "W = resume ?k gen fault ?S"
    with r2 show ?thesis unfolding F_def finish_def by simp
  qed
  moreover from s t have "tasks ?W' = tasks w @ [Finished]" by simp
  moreover from s f(4) assms(1) P(2) have "locks ?W' = locks w" by simp
  ultimately show ?thesis
    using s m f by (intro exI[of _ a]) simp
qed


text \<open>A call that finds the lock taken waits, and alone it waits for ever.\<close>

lemma put_locked:
  fixes gen :: generator and fault :: "fs_fault option" and u :: upsert
  assumes "getCachePath lang ctx w \<in> locks w"
  shows "replies (finish (length (tasks w)) gen fault
           (snd (spawn (put_call u lang ctx Outside) w))) (length (tasks w)) = None"
proof -
  let ?k = "length (tasks w)"
  let ?S = "snd (spawn (put_call u lang ctx Outside) w)"
  let ?P = "\<lparr>pkey = getCacheKey lang ctx w, plock = getCachePath lang ctx w, plang = lang,
            pctx = ctx, pupsert = u, pcaller = Outside\<rparr>"
  have S: "tasks ?S = tasks w @ [Put_lock ?P]" "locks ?S = locks w" "replies ?S ?k = None"
    using assms by (simp_all add: put_defs)
  have "(tasks ?S)[?k := Put_lock ?P] = tasks ?S"
    by (simp add: S(1))
  then have "resume ?k gen fault ?S = ?S"
    using assms S by (simp add: resume_def withLock_def)
  then have "finish ?k gen fault ?S = ?S"
    by (simp add: finish_def)
  with S(3) show ?thesis by simp
qed

text \<open>A call whose partition does not load fails with the error of \<open>loadCache\<close>.\<close>

lemma put_unloadable:
  fixes gen :: generator and fault :: "fs_fault option" and u :: upsert
  assumes "getCachePath lang ctx w \<notin> locks w" and "stored lang ctx w = None"
  shows "\<exists>m. replies (finish (length (tasks w)) gen fault
           (snd (spawn (put_call u lang ctx Outside) w))) (length (tasks w))
           = Some (Thrown (LoadFailed (getCachePath lang ctx w) m))"
proof -
  let ?k = "length (tasks w)"
  let ?S = "snd (spawn (put_call u lang ctx Outside) w)"
  let ?P = "\<lparr>pkey = getCacheKey lang ctx w, plock = getCachePath lang ctx w, plang = lang,
            pctx = ctx, pupsert = u, pcaller = Outside\<rparr>"
  from assms(2) have none: "memCache w (getCacheKey lang ctx w) = None"
    and d: "(\<exists>m. disk w (getCachePath lang ctx w) = Some (Garbage m)) \<or>
            (\<exists>m. disk w (getCachePath lang ctx w) = Some (Unreadable m))"
    by (auto simp: stored_def loadCache_def Let_def split: option.splits cache_file.splits)
  have S: "tasks ?S = tasks w @ [Put_readFile ?P (getCacheKey lang ctx w) (getCachePath lang ctx w)]"
    "disk ?S = disk w"
    using none assms(1) by (simp_all add: put_defs)
  then have k: "?k < length (tasks ?S)"
    and tk: "tasks ?S ! ?k = Put_readFile ?P (getCacheKey lang ctx w) (getCachePath lang ctx w)"
    by simp_all
  from d obtain m where m: "disk w (getCachePath lang ctx w) = Some (Garbage m) \<or>
      disk w (getCachePath lang ctx w) = Some (Unreadable m)" by blast
  let ?W = "resume ?k gen fault ?S"
  from m have W: "replies ?W ?k = Some (Thrown (LoadFailed (getCachePath lang ctx w) m)) \<and>
      tasks ?W ! ?k = Finished \<and> ?k < length (tasks ?W)"
    using k tk S(2)
    by (elim disjE)
       (simp_all add: resume_def put_loadCache_def loadCache_readFile_def Let_def
         withLock_finally_def return_def)
  then have "resume ?k gen fault ?W = ?W" by (simp add: resume_Finished)
  then have "finish ?k gen fault ?S = ?W" by (simp add: finish_def)
  with W show ?thesis by auto
qed

lemma put_alone_Completed:
  fixes gen :: generator and fault :: "fs_fault option" and u :: upsert
  assumes "replies (finish (length (tasks w)) gen fault
           (snd (spawn (put_call u lang ctx Outside) w))) (length (tasks w)) = Some Completed"
  shows "getCachePath lang ctx w \<notin> locks w \<and> (\<exists>cache. stored lang ctx w = Some cache)"
proof (intro conjI)
  show free: "getCachePath lang ctx w \<notin> locks w"
    using assms put_locked[of lang ctx w gen fault u] by auto
  show "\<exists>cache. stored lang ctx w = Some cache"
  proof (cases "stored lang ctx w")
    case None
    from put_unloadable[OF free None, of gen fault u] assms show ?thesis by auto
  next
    case (Some cache)
    then show ?thesis by blast
  qed
qed

text \<open>\<open>getCached\<close> on a partition that is in memory returns at once.\<close>

lemma getCached_in_memory:
  assumes "memCache w (getCacheKey lang ctx w) = Some a"
  shows "replies (snd (alone gen fault (getCached t lang ctx w))) (length (tasks w)) =
           Some (Returned (js_or (js_get (heap w a) t) Null))"
proof -
  let ?k = "length (tasks w)"
  let ?S = "snd (getCached t lang ctx w)"
  have S: "tasks ?S = tasks w @ [Finished]" "fst (getCached t lang ctx w) = ?k"
    "replies ?S ?k = Some (Returned (js_or (js_get (heap w a) t) Null))"
    using assms
    by (simp_all add: getCached_def getCached_call_def getCached_loadCache_def spawn_def
        loadCache_def return_def Let_def getCacheKey_def getConfig_def)
  then have "finish ?k gen fault ?S = ?S"
    by (intro finish_Finished) simp_all
  with S show ?thesis by (simp add: alone_def)
qed

lemma setCached_fst: "fst (setCached t v lang ctx w) = length (tasks w)"
  by (simp add: setCached_outside)

lemma puts_memCache:
  assumes "fs \<noteq> []" and "puts gen fs t v lang ctx w = (Some Completed, w')"
  shows "\<exists>a c. memCache w' (getCacheKey lang ctx w') = Some a \<and> heap w' a = js_set c t v"
  using assms
proof (induction fs arbitrary: w)
  case Nil
  then show ?case by simp
next
  case (Cons f fs)
  let ?k = "length (tasks w)"
  define w1 where "w1 = finish ?k gen f (snd (spawn (put_call (Assign t v) lang ctx Outside) w))"
  have a: "alone gen f (setCached t v lang ctx w) = (?k, w1)"
    unfolding alone_def w1_def using setCached_fst[of t v lang ctx w]
    by (simp add: setCached_def)
  have ok: "replies w1 ?k = Some Completed"
  proof (rule ccontr)
    assume "replies w1 ?k \<noteq> Some Completed"
    with Cons.prems(2) a have "replies w1 ?k = Some Completed" by simp
    with \<open>replies w1 ?k \<noteq> Some Completed\<close> show False by simp
  qed
  with Cons.prems(2) a have p: "puts gen fs t v lang ctx w1 = (Some Completed, w')" by simp
  show ?case
  proof (cases "fs = []")
    case True
    with p have "w' = w1" by simp
    from put_alone_Completed[OF ok[unfolded w1_def]] obtain cache where
      free: "getCachePath lang ctx w \<notin> locks w" and st: "stored lang ctx w = Some cache"
      by blast
    from put_alone[where u = "Assign t v" and gen = gen and fault = f, OF free st] obtain a where
      "memCache w1 (getCacheKey lang ctx w) = Some a" "heap w1 a = js_set cache t v"
      "config w1 = config w"
      unfolding w1_def by auto
    moreover from this(3) have "getCacheKey lang ctx w1 = getCacheKey lang ctx w"
      by (simp add: getCacheKey_def getConfig_def)
    ultimately show ?thesis using \<open>w' = w1\<close> by auto
  next
    case False
    from Cons.IH[OF False p] show ?thesis .
  qed
qed

text \<open>
  C3, as stated, fails: a successful \<open>setCached\<close> of the empty translation is read back by
  \<open>getCached\<close> as \<open>null\<close>; a successful \<open>setCached\<close> of the text \<open>__proto__\<close> stores
  nothing, so that \<open>getCached\<close> returns the inherited member; and when \<open>setCached\<close> and
  \<open>getCached\<close> read the file of the partition at the same time, the empty object that
  \<open>getCached\<close> has loaded replaces the object that \<open>setCached\<close> has changed: the
  translation is written to the file, and the next \<open>getCached\<close> returns \<open>null\<close>.
\<close>

theorem get_after_put_counterexample:
  "replies (snd (alone silent None (setCached ''Hello'' '''' ''fr'' ''default'' fresh))) 0
     = Some Completed \<and>
   replies (snd (alone silent None (getCached ''Hello'' ''fr'' ''default''
         (snd (alone silent None (setCached ''Hello'' '''' ''fr'' ''default'' fresh)))))) 1
     = Some (Returned Null) \<and>
   replies (snd (alone silent None (setCached ''__proto__'' ''prototype'' ''fr'' ''default'' fresh))) 0
     = Some Completed \<and>
   replies (snd (alone silent None (getCached ''__proto__'' ''fr'' ''default''
         (snd (alone silent None (setCached ''__proto__'' ''prototype'' ''fr'' ''default'' fresh)))))) 1
     = Some (Returned (Inherited ''__proto__'')) \<and>
   replies put_and_get_together 0 = Some Completed \<and>
   disk put_and_get_together ''locales/fr/default.json''
     = Some (Json [(''Hello'', ''Bonjour'')]) \<and>
   tasks put_and_get_together = [Finished, Finished] \<and>
   replies (snd (alone silent None (getCached ''Hello'' ''fr'' ''default'' put_and_get_together))) 2
     = Some (Returned Null)"
  by (simp add: put_and_get_together_def cache_defs nth_append)

text \<open>
  C3, amended. For every text other than \<open>__proto__\<close> and every non-empty value: after
  \<open>setCached\<close> has succeeded, once or repeatedly, each call running alone, a call of
  \<open>getCached\<close> that follows returns the value.
\<close>

theorem get_after_put:
  assumes "fs \<noteq> []" and "fst (puts gen fs txt v lang ctx w) = Some Completed"
    and "v \<noteq> []" and "txt \<noteq> ''__proto__''"
  shows "replies (snd (alone gen' fault (getCached txt lang ctx (snd (puts gen fs txt v lang ctx w)))))
           (length (tasks (snd (puts gen fs txt v lang ctx w)))) = Some (Returned (Str v))"
proof -
  obtain w' where p: "puts gen fs txt v lang ctx w = (Some Completed, w')"
    using assms(2) by (cases "puts gen fs txt v lang ctx w") auto
  from puts_memCache[OF assms(1) p] obtain a c where
    a: "memCache w' (getCacheKey lang ctx w') = Some a" "heap w' a = js_set c txt v" by blast
  from getCached_in_memory[OF a(1), of gen' fault "txt"] a(2) assms(3,4) p
  show ?thesis
    by (simp add: js_get_js_set js_or_def)
qed

theorem get_after_put_witness:
  "fst (puts silent [None, None, None] ''Hello'' ''Bonjour'' ''fr'' ''default'' fresh) = Some Completed \<and>
   replies (snd (alone silent None (getCached ''Hello'' ''fr'' ''default''
       (snd (puts silent [None, None, None] ''Hello'' ''Bonjour'' ''fr'' ''default'' fresh))))) 3
     = Some (Returned (Str ''Bonjour''))"
proof -
  have s: "fst (puts silent [None, None, None] ''Hello'' ''Bonjour'' ''fr'' ''default'' fresh) = Some Completed"
    and t: "length (tasks (snd (puts silent [None, None, None] ''Hello'' ''Bonjour'' ''fr'' ''default'' fresh))) = 3"
    by (simp_all add: cache_defs nth_append replace_value_def)
  from get_after_put[OF _ s, of silent None] s t show ?thesis by simp
qed




subsection \<open>The caller of a suspended put\<close>

text \<open>
  A suspended call of \<open>setCachedBatch\<close> made by \<open>flush\<close> stays the call of that \<open>flush\<close>, with
  the generator's answer, until it has finished, whatever else happens.
\<close>

lemma withLock_caller:
  "withLock k p w = (t, w') \<Longrightarrow> task_caller t = Some (pcaller p) \<or> t = Finished"
  by (auto simp: withLock_def put_critical_def put_loadCache_def saveCache_def
      withLock_finally_def Let_def split: if_splits load.splits caller.splits)

lemma continue_caller:
  assumes "task_caller t = Some c" and "continue k gen fault t w = (t', w')"
  shows "task_caller t' = Some c \<or> t' = Finished"
proof (cases t)
  case (Put_lock p)
  with assms withLock_caller[of k p w t' w'] show ?thesis by simp
next
  case (Put_readFile p key filePath)
  with assms show ?thesis
    by (auto simp: put_loadCache_def saveCache_def withLock_finally_def Let_def
        split: prod.splits sum.splits caller.splits)
next
  case (Put_mkdir p filePath data)
  with assms show ?thesis
    by (auto simp: saveCache_mkdir_def withLock_finally_def Let_def
        split: if_splits caller.splits)
next
  case (Put_writeFile p filePath content)
  with assms show ?thesis
    by (auto simp: saveCache_writeFile_def withLock_finally_def Let_def
        split: if_splits caller.splits)
next
  case (Put_rename p filePath)
  with assms show ?thesis
    by (auto simp: saveCache_rename_def withLock_finally_def Let_def
        split: if_splits option.splits caller.splits)
qed (use assms in simp_all)

lemma spawn_tasks:
  assumes "\<And>k w. advances jo w (f k w)"
  shows "\<exists>t. tasks (snd (spawn f w)) = tasks w @ [t]"
proof -
  let ?k = "length (tasks w)"
  let ?w0 = "w\<lparr>replies := (replies w)(?k := None)\<rparr>"
  obtain t w1 where f: "f ?k ?w0 = (t, w1)" by (cases "f ?k ?w0")
  from assms[of ?w0 ?k] f have "tasks w1 = tasks w" by (simp add: advances_def)
  with f show ?thesis by (simp add: spawn_def Let_def)
qed

lemma flush_tasks: "flush lang ctx w = w \<or> (\<exists>t. tasks (flush lang ctx w) = tasks w @ [t])"
proof (cases "queues w (getQueueKey lang ctx)")
  case None
  then show ?thesis by (simp add: flush_nothing)
next
  case (Some q)
  show ?thesis
  proof (cases "q = []")
    case True
    with Some show ?thesis by (simp add: flush_nothing)
  next
    case False
    let ?w1 = "w\<lparr>queues := (queues w)(getQueueKey lang ctx := None)\<rparr>"
    let ?j = "\<lparr>jlang = lang, jctx = ctx, jqueue = q,
               juniqueTexts = unique (map qtext q), jconfig = config w\<rparr>"
    have "flush lang ctx w = snd (spawn (getAllCached_call lang ctx (Some ?j)) ?w1)"
      using Some False by (simp add: flush_def Let_def getConfig_def)
    moreover from spawn_tasks[of "Some ?j" "getAllCached_call lang ctx (Some ?j)" ?w1]
    have "\<exists>t. tasks (snd (spawn (getAllCached_call lang ctx (Some ?j)) ?w1)) = tasks ?w1 @ [t]"
      by (simp add: getAllCached_call_advances)
    ultimately show ?thesis by simp
  qed
qed

lemma enqueue_tasks:
  "tasks (snd (enqueue t lang ctx w)) = tasks w \<or>
   (\<exists>t'. tasks (snd (enqueue t lang ctx w)) = tasks w @ [t'])"
proof -
  let ?wb = "w\<lparr>next_promise := Suc (next_promise w),
                promises := (promises w)(next_promise w := None),
                queues := (queues w)(getQueueKey lang ctx \<mapsto>
                  joined t (next_promise w) (collecting w (getQueueKey lang ctx)))\<rparr>"
  let ?wt = "?wb\<lparr>timers := (timers w)(getQueueKey lang ctx := None)\<rparr>"
  from flush_tasks[of lang ctx ?wt]
  have "tasks (flush lang ctx ?wt) = tasks w \<or> (\<exists>t'. tasks (flush lang ctx ?wt) = tasks w @ [t'])"
    by auto
  with enqueue_shape[of t lang ctx w] show ?thesis
    by (elim conjE disjE) simp_all
qed

lemma timer_fires_tasks:
  "tasks (timer_fires key w) = tasks w \<or> (\<exists>t. tasks (timer_fires key w) = tasks w @ [t])"
proof (cases "timers w key")
  case None
  then show ?thesis by (simp add: timer_fires_def)
next
  case (Some lc)
  obtain l c where "lc = (l, c)" by (cases lc)
  with Some flush_tasks[of l c "w\<lparr>timers := (timers w)(key := None)\<rparr>"]
  show ?thesis by (auto simp: timer_fires_def)
qed

text \<open>A step starts a new task or resumes one; the other tasks are what they were.\<close>

lemma step_tasks:
  assumes "step w w'"
  shows "tasks w' = tasks w \<or> (\<exists>t. tasks w' = tasks w @ [t]) \<or>
         (\<exists>k gen fault. k < length (tasks w) \<and> w' = resume k gen fault w)"
  using assms
proof (induction rule: step.induct)
  case (configures w partial)
  then show ?case by (simp add: configure_def)
next
  case (edits w files)
  then show ?case by simp
next
  case (gets w t lang ctx)
  from spawn_tasks[of None "getCached_call t lang ctx" w] show ?case
    by (simp add: getCached_def getCached_call_advances)
next
  case (sets w t translation lang ctx)
  from spawn_tasks[of None "put_call (Assign t translation) lang ctx Outside" w] show ?case
    by (simp add: setCached_def put_call_outside)
next
  case (sets_batch w entries lang ctx)
  from spawn_tasks[of None "put_call (Assign_all entries) lang ctx Outside" w] show ?case
    by (simp add: setCachedBatch_def put_call_outside)
next
  case (gets_all w lang ctx)
  from spawn_tasks[of None "getAllCached_call lang ctx None" w] show ?case
    by (simp add: getAllCached_def getAllCached_call_advances)
next
  case (enqueues w t lang ctx)
  from enqueue_tasks[of t lang ctx w] show ?case by blast
next
  case (fires w key)
  from timer_fires_tasks[of key w] show ?case by blast
next
  case (resumes w k gen fault)
  show ?case
  proof (cases "k < length (tasks w)")
    case True
    then show ?thesis by blast
  next
    case False
    then show ?thesis by (simp add: resume_beyond)
  qed
qed

lemma resume_task:
  assumes "k < length (tasks w)"
  shows "tasks (resume k gen fault w) = (tasks w)[k := fst (continue k gen fault (tasks w ! k) w)]"
proof -
  obtain t' w' where c: "continue k gen fault (tasks w ! k) w = (t', w')"
    by (cases "continue k gen fault (tasks w ! k) w")
  from resume_continue[OF assms c] c show ?thesis by simp
qed

lemma step_caller:
  assumes "step w w'" and "k < length (tasks w)" and "task_caller (tasks w ! k) = Some c"
  shows "k < length (tasks w') \<and> (task_caller (tasks w' ! k) = Some c \<or> tasks w' ! k = Finished)"
proof -
  from step_tasks[OF assms(1)] consider "tasks w' = tasks w" | t where "tasks w' = tasks w @ [t]"
    | k' gen fault where "k' < length (tasks w)" "w' = resume k' gen fault w"
    by blast
  then show ?thesis
  proof cases
    case 1
    with assms show ?thesis by simp
  next
    case 2
    with assms show ?thesis by (simp add: nth_append)
  next
    case 3
    note t = resume_task[OF 3(1), of gen fault]
    show ?thesis
    proof (cases "k' = k")
      case True
      obtain t' w1 where "continue k gen fault (tasks w ! k) w = (t', w1)"
        by (cases "continue k gen fault (tasks w ! k) w")
      with continue_caller[OF assms(3) this] t True assms(2) 3(2) show ?thesis by simp
    next
      case False
      with t assms 3(2) show ?thesis by simp
    qed
  qed
qed

lemma later_caller:
  assumes "later w w'" and "k < length (tasks w)" and "task_caller (tasks w ! k) = Some c"
  shows "k < length (tasks w') \<and> (task_caller (tasks w' ! k) = Some c \<or> tasks w' ! k = Finished)"
  using assms
proof (induction rule: later.induct)
  case (now w)
  then show ?case by simp
next
  case (after w w' w'')
  then have k: "k < length (tasks w')"
    and c: "task_caller (tasks w' ! k) = Some c \<or> tasks w' ! k = Finished" by simp_all
  from c show ?case
  proof
    assume "task_caller (tasks w' ! k) = Some c"
    from step_caller[OF after(2) k this] show ?thesis .
  next
    assume f: "tasks w' ! k = Finished"
    from step_tasks[OF after(2)] consider "tasks w'' = tasks w'" | t where "tasks w'' = tasks w' @ [t]"
      | k' gen fault where "k' < length (tasks w')" "w'' = resume k' gen fault w'"
      by blast
    then show ?thesis
    proof cases
      case 1
      with k f show ?thesis by simp
    next
      case 2
      with k f show ?thesis by (simp add: nth_append)
    next
      case 3
      note t = resume_task[OF 3(1), of gen fault]
      show ?thesis
      proof (cases "k' = k")
        case True
        with t f k 3(2) show ?thesis by simp
      next
        case False
        with t f k 3(2) show ?thesis by simp
      qed
    qed
  qed
qed

text \<open>When the generator has answered, \<open>flush\<close> is in \<open>setCachedBatch\<close> with the answer.\<close>

lemma flush_translate_caller:
  assumes "k < length (tasks w)" and "tasks w ! k = Flush_translate j examples"
    and "gen (jconfig j) (juniqueTexts j) (jlang j) examples = Inr translations"
  shows "k < length (tasks (resume k gen fault w)) \<and>
         task_caller (tasks (resume k gen fault w) ! k) = Some (Flush j translations)"
proof -
  obtain t' w' where c: "put_call (Assign_all translations) (jlang j) (jctx j)
      (Flush j translations) k w = (t', w')"
    by (cases "put_call (Assign_all translations) (jlang j) (jctx j) (Flush j translations) k w")
  then have "task_caller t' = Some (Flush j translations)"
    by (auto simp: put_call_def withLock_def put_critical_def put_loadCache_def saveCache_def
        Let_def split: if_splits load.splits)
  with c assms show ?thesis
    by (simp add: resume_task flush_translate_def)
qed

subsection \<open>The last step of a flush\<close>

lemma later_trans:
  assumes "later a b" and "later b c"
  shows "later a c"
  using assms(2,1) by (induction rule: later.induct) (auto intro: later.after)

lemma sound_queue_item:
  assumes "sound_queue w (before @ item # after)" and "p \<in> waiters item"
  shows "(\<forall>i\<in>set before. p \<notin> waiters i) \<and> promises w p = None"
proof -
  from assms(1) have sub: "\<forall>i\<in>set (before @ item # after). waiters i \<subseteq> set (qresolve i)"
    by (auto simp: sound_queue_def waiters_def)
  from assms(1) have "set (concat (map qresolve before)) \<inter> set (qresolve item) = {}"
    by (auto simp: sound_queue_def)
  moreover from sub assms(2) have "p \<in> set (qresolve item)" by auto
  ultimately have "\<forall>i\<in>set before. p \<notin> set (qresolve i)" by auto
  with sub have "\<forall>i\<in>set before. p \<notin> waiters i" by auto
  moreover from assms have "promises w p = None" by (simp add: sound_queue_def)
  ultimately show ?thesis by blast
qed

text \<open>
  \<open>fs.rename\<close> completes for the \<open>setCachedBatch\<close> of a \<open>flush\<close>: the file is moved, the lock
  is given back, and the loop of \<open>flush\<close> settles the promises.
\<close>

lemma resume_rename:
  assumes "k < length (tasks w)" and "tasks w ! k = Put_rename p filePath"
    and "pcaller p = Flush j translations" and "disk w (filePath @ ''.tmp'') = Some moved"
  shows "resume k gen None w =
           (resolve_all translations (jqueue j)
              (w\<lparr>disk := ((disk w)(filePath @ ''.tmp'' := None))(filePath \<mapsto> moved),
                 trace := trace w @ [Saved filePath moved],
                 locks := locks w - {plock p}\<rparr>))\<lparr>tasks := (tasks w)[k := Finished]\<rparr>"
  using assms
  by (simp add: resume_def saveCache_rename_def withLock_finally_def flush_setCachedBatch_def
      Let_def resolve_all_frame)

lemma rename_settles:
  assumes "sound w" and "k < length (tasks w)" and "tasks w ! k = Put_rename p filePath"
    and "pcaller p = Flush j translations" and "disk w (filePath @ ''.tmp'') \<noteq> None"
    and "item \<in> set (jqueue j)"
  shows "(truthy (js_get translations (qtext item)) \<longrightarrow>
            (\<forall>q\<in>set (qresolve item).
               promises (resume k gen None w) q = Some (Resolved (js_get translations (qtext item))))) \<and>
         (\<not> truthy (js_get translations (qtext item)) \<longrightarrow>
            (\<forall>q\<in>set (qreject item).
               promises (resume k gen None w) q = Some (Rejected (NoTranslation (qtext item)))))"
proof -
  from assms(5) obtain moved where m: "disk w (filePath @ ''.tmp'') = Some moved" by blast
  let ?w1 = "w\<lparr>disk := ((disk w)(filePath @ ''.tmp'' := None))(filePath \<mapsto> moved),
                trace := trace w @ [Saved filePath moved], locks := locks w - {plock p}\<rparr>"
  note r = resume_rename[OF assms(2,3,4) m, of gen]
  have pr: "promises (resume k gen None w) = promises (resolve_all translations (jqueue j) ?w1)"
    by (simp add: r)
  from assms(2,3,4) have "j \<in> set (flushing w)"
    by (intro task_job_flushing[of k]) simp_all
  with assms(1) have sq: "sound_queue w (jqueue j)" by (simp add: sound_def)
  from assms(6) obtain before after where split: "jqueue j = before @ item # after"
    by (auto dest: split_list)
  have each: "\<forall>i\<in>set before. q \<notin> waiters i" "promises ?w1 q = None" if "q \<in> waiters item" for q
    using sound_queue_item[OF sq[unfolded split] that] by simp_all
  show ?thesis
  proof (intro conjI impI ballI)
    fix q assume t: "truthy (js_get translations (qtext item))" and q: "q \<in> set (qresolve item)"
    then have "q \<in> waiters item" by (simp add: waiters_def)
    note e = each[OF this]
    from resolve_all_item(1)[OF e, of "translations" item after] t q
    show "promises (resume k gen None w) q = Some (Resolved (js_get translations (qtext item)))"
      by (simp add: pr split)
  next
    fix q assume t: "\<not> truthy (js_get translations (qtext item))" and q: "q \<in> set (qreject item)"
    then have "q \<in> waiters item" by (simp add: waiters_def)
    note e = each[OF this]
    from resolve_all_item(2)[OF e, of "translations" item after] t q
    show "promises (resume k gen None w) q = Some (Rejected (NoTranslation (qtext item)))"
      by (simp add: pr split)
  qed
qed

text \<open>
  C4, as stated, fails. The generator succeeds in each of these runs, and yet: a text
  that the answer maps to the empty string is rejected; with a failing write every waiter
  is rejected with the write error; the omitted text \<open>constructor\<close> is resolved with the
  member inherited from \<open>Object.prototype\<close>; of two waiters on an omitted text only the first
  is rejected, the second stays pending.
\<close>

theorem flush_success_counterexample:
  "promises (finish 0 blank None (one_caller ''Hello'')) 0 = Some (Rejected (NoTranslation ''Hello'')) \<and>
   promises (finish 0 mock (Some WriteFileFails) (one_caller ''Hello'')) 0 = Some (Rejected (IOFailed ''writeFile'')) \<and>
   promises (finish 0 silent None (one_caller ''constructor'')) 0 = Some (Resolved (Inherited ''constructor'')) \<and>
   promises (finish 0 silent None two_callers) 0 = Some (Rejected (NoTranslation ''Hello'')) \<and>
   promises (finish 0 silent None two_callers) 1 = None"
  by (simp add: one_caller_def two_callers_def run_defs numeral_2_eq_2 blank_def mock_def silent_def)

text \<open>
  C4, amended. In a reachable state a \<open>flush\<close> awaits the generator, and the generator
  answers. Whatever happens then, if the \<open>flush\<close> comes to await the \<open>fs.rename\<close> of its
  \<open>setCachedBatch\<close> (the lock was free or has become free, the cache has loaded, \<open>fs.mkdir\<close>
  and \<open>fs.writeFile\<close> have succeeded) and the rename succeeds, then for every item of the
  batch: if the answer has a non-empty value for the item's text, every promise of the
  item's \<open>resolve\<close> closure (the first waiter and the piggybacked ones) is resolved with
  that value; if the answer maps the text to the empty string, or omits it and the text is
  no member of \<open>Object.prototype\<close>, the promise of the item's \<open>reject\<close> closure (the first
  waiter) is rejected with the error for a missing translation. This holds for each item
  on its own, whatever happens to the other texts.
\<close>

theorem flush_success_settles:
  assumes "reachable w0" and "k < length (tasks w0)"
    and "tasks w0 ! k = Flush_translate j examples"
    and "gen (jconfig j) (juniqueTexts j) (jlang j) examples = Inr translations"
    and "later (resume k gen fault w0) w"
    and "tasks w ! k = Put_rename p filePath" and "disk w (filePath @ ''.tmp'') \<noteq> None"
    and "item \<in> set (jqueue j)"
  shows "(map_of translations (qtext item) = Some v \<and> v \<noteq> [] \<longrightarrow>
            (\<forall>q\<in>set (qresolve item).
               promises (resume k gen' None w) q = Some (Resolved (Str v)))) \<and>
         (map_of translations (qtext item) = Some [] \<or>
          map_of translations (qtext item) = None \<and> qtext item \<notin> set object_prototype_names \<longrightarrow>
            (\<forall>q\<in>set (qreject item).
               promises (resume k gen' None w) q = Some (Rejected (NoTranslation (qtext item)))))"
proof -
  let ?w1 = "resume k gen fault w0"
  from flush_translate_caller[where gen = gen and fault = fault, OF assms(2,3,4)]
  have k1: "k < length (tasks ?w1)"
    and c1: "task_caller (tasks ?w1 ! k) = Some (Flush j translations)" by simp_all
  from later_caller[OF assms(5) k1 c1] assms(6)
  have k: "k < length (tasks w)" and c: "pcaller p = Flush j translations" by simp_all
  have "reachable w"
  proof -
    from assms(1) obtain cfg files where s: "later (start cfg files) w0"
      by (auto simp: reachable_def)
    from s have "later (start cfg files) ?w1" by (rule later_resume)
    from later_trans[OF this assms(5)] show ?thesis by (auto simp: reachable_def)
  qed
  then have sw: "sound w" by (rule reachable_sound)
  note r = rename_settles[OF sw k assms(6) c assms(7,8), of gen']
  show ?thesis
  proof (intro conjI impI ballI)
    fix q assume "map_of translations (qtext item) = Some v \<and> v \<noteq> []" "q \<in> set (qresolve item)"
    with r show "promises (resume k gen' None w) q = Some (Resolved (Str v))"
      by (simp add: js_get_Some)
  next
    fix q assume a: "map_of translations (qtext item) = Some [] \<or>
        map_of translations (qtext item) = None \<and> qtext item \<notin> set object_prototype_names"
      and q: "q \<in> set (qreject item)"
    from a have "\<not> truthy (js_get translations (qtext item))"
      by (auto simp: js_get_Some js_get_None)
    with r q show "promises (resume k gen' None w) q = Some (Rejected (NoTranslation (qtext item)))"
      by simp
  qed
qed


lemma reachable_three_texts: "reachable three_texts"
  unfolding three_texts_def fresh_def reachable_def
  by (rule exI, rule exI) (rule later_intros)+

theorem flush_success_settles_witness:
  "promises (resume 0 partial_answer None (resume 0 partial_answer None (resume 0 partial_answer None
     (resume 0 partial_answer None (resume 0 partial_answer None three_texts))))) 0
     = Some (Resolved (Str ''[fr] One'')) \<and>
   promises (resume 0 partial_answer None (resume 0 partial_answer None (resume 0 partial_answer None
     (resume 0 partial_answer None (resume 0 partial_answer None three_texts))))) 1
     = Some (Rejected (NoTranslation ''Two'')) \<and>
   promises (resume 0 partial_answer None (resume 0 partial_answer None (resume 0 partial_answer None
     (resume 0 partial_answer None (resume 0 partial_answer None three_texts))))) 2
     = Some (Resolved (Str ''[fr] Three''))"
proof -
  define J where "J = \<lparr>jlang = ''fr'', jctx = ''default'',
       jqueue = [\<lparr>qtext = ''One'', qresolve = [0], qreject = [0]\<rparr>,
                 \<lparr>qtext = ''Two'', qresolve = [1], qreject = [1]\<rparr>,
                 \<lparr>qtext = ''Three'', qresolve = [2], qreject = [2]\<rparr>],
       juniqueTexts = [''One'', ''Two'', ''Three''], jconfig = defaults\<rparr>"
  define tr where "tr = [(''One'', ''[fr] One''), (''Three'', ''[fr] Three'')]"
  define P where "P = \<lparr>pkey = ''./locales:fr:default'', plock = ''locales/fr/default.json'',
       plang = ''fr'', pctx = ''default'', pupsert = Assign_all tr, pcaller = Flush J tr\<rparr>"
  define W0 where "W0 = resume 0 partial_answer None three_texts"
  define W where "W = resume 0 partial_answer None (resume 0 partial_answer None
     (resume 0 partial_answer None W0))"
  have r0: "reachable W0"
    unfolding W0_def three_texts_def fresh_def reachable_def
    by (rule exI, rule exI) (rule later_intros)+
  have t0: "tasks W0 = [Flush_translate J []]"
    by (simp add: W0_def J_def three_texts_def run_defs)
  then have k: "0 < length (tasks W0)" and t0': "tasks W0 ! 0 = Flush_translate J []" by simp_all
  have g: "partial_answer (jconfig J) (juniqueTexts J) (jlang J) [] = Inr tr"
    by (simp add: J_def partial_answer_def tr_def)
  have l: "later (resume 0 partial_answer None W0) W"
    unfolding W_def by (intro later_intros)
  have tw: "tasks W ! 0 = Put_rename P ''locales/fr/default.json''"
    and d: "disk W (''locales/fr/default.json'' @ ''.tmp'') \<noteq> None"
    by (simp_all add: W_def W0_def J_def P_def tr_def three_texts_def partial_answer_def
        run_defs)
  have i1: "\<lparr>qtext = ''One'', qresolve = [0], qreject = [0]\<rparr> \<in> set (jqueue J)"
    and i2: "\<lparr>qtext = ''Two'', qresolve = [1], qreject = [1]\<rparr> \<in> set (jqueue J)"
    and i3: "\<lparr>qtext = ''Three'', qresolve = [2], qreject = [2]\<rparr> \<in> set (jqueue J)"
    by (simp_all add: J_def)
  from flush_success_settles[where gen = partial_answer and gen' = partial_answer
         and v = "''[fr] One''", OF r0 k t0' g l tw d i1]
       flush_success_settles[where gen = partial_answer and gen' = partial_answer,
         OF r0 k t0' g l tw d i2]
       flush_success_settles[where gen = partial_answer and gen' = partial_answer
         and v = "''[fr] Three''", OF r0 k t0' g l tw d i3]
  show ?thesis
    by (simp add: tr_def object_prototype_names_def W_def W0_def)
qed

end
